theory Spec2Isabelle
  imports Complex_Main "HOL-Library.Signed_Division" "HOL-Library.Word" "HOL-Library.Multiset"
begin

section \<open>Constants (constants.ts)\<close>

text \<open>
  JavaScript \<open>bigint\<close> values are unbounded integers: \<open>int\<close>.  The numbers of the
  configuration (\<open>totalShares\<close>, \<open>threshold\<close>) are small integral JS numbers: \<open>int\<close>.
\<close>

definition PRIME_MODULUS :: int where
  "PRIME_MODULUS = 2 ^ 521 - 1"

definition MAX_SHARES :: int where
  "MAX_SHARES = 10"

definition MIN_SHARES :: int where
  "MIN_SHARES = 2"

section \<open>Data (types.ts)\<close>

record Share =
  share_id :: int
  data :: string

record AppConfig =
  totalShares :: int
  threshold :: int

definition DEFAULT_CONFIG :: AppConfig where
  "DEFAULT_CONFIG = \<lparr>totalShares = 5, threshold = 3\<rparr>"

record EncryptedFile =
  file_name :: string
  file_type :: string
  file_size :: nat
  file_data :: string
  iv :: string
  hash :: string

datatype log_action =
  UPLOAD | DISTRIBUTE_SHARES | RECOVERY_ATTEMPT | RECOVERY_SUCCESS | RECOVERY_FAILED | CONFIG_CHANGE

text \<open>An audit record without its random \<open>id\<close> and its \<open>timestamp\<close>.\<close>

record AuditLog =
  action :: log_action
  actor :: string
  details :: string
  fileHash :: "string option"

text \<open>Exceptions of the platform functions the code calls, as values.\<close>

datatype js_error = SyntaxError | RangeError | InvalidCharacterError | DataError | OperationError

type_synonym byte = "8 word"

section \<open>Platform functions on strings and big integers\<close>

text \<open>
  Strings are lists of 8-bit code units.  \<open>StrWhiteSpaceChar\<close> of ECMAScript, as far as
  it lies in that range: TAB, LF, VT, FF, CR, SP and NBSP.
\<close>

definition isWhiteSpace :: "char \<Rightarrow> bool" where
  "isWhiteSpace c = ((of_char c :: nat) \<in> {9, 10, 11, 12, 13, 32, 160})"

definition isHexDigit :: "char \<Rightarrow> bool" where
  "isHexDigit c = (let n = (of_char c :: nat) in
     (48 \<le> n \<and> n \<le> 57) \<or> (97 \<le> n \<and> n \<le> 102) \<or> (65 \<le> n \<and> n \<le> 70))"

definition hexDigitValue :: "char \<Rightarrow> nat" where
  "hexDigitValue c = (let n = (of_char c :: nat) in
     if n \<le> 57 then n - 48 else if 97 \<le> n then n - 87 else n - 55)"

text \<open>The digit of a value below 16, in lower case, as \<open>toString(16)\<close> writes it.\<close>

definition hexDigit :: "nat \<Rightarrow> char" where
  "hexDigit d = (if d < 10 then char_of (48 + d) else char_of (87 + d))"

text \<open>The value of a run of hexadecimal digits, most significant first.\<close>

definition hexValue :: "string \<Rightarrow> nat" where
  "hexValue s = foldl (\<lambda>acc c. 16 * acc + hexDigitValue c) 0 s"

definition trimEnd :: "string \<Rightarrow> string" where
  "trimEnd s = rev (dropWhile isWhiteSpace (rev s))"

definition trim :: "string \<Rightarrow> string" where
  "trim s = trimEnd (dropWhile isWhiteSpace s)"

text \<open>
  \<open>BigInt_0x h\<close> is the call \<open>BigInt("0x" + h)\<close>, the only way the code calls \<open>BigInt\<close>
  on a string: the text after the prefix has to be one or more hexadecimal digits, which
  white space may follow; anything else throws a \<open>SyntaxError\<close>.
\<close>

definition BigInt_0x :: "string \<Rightarrow> js_error + int" where
  "BigInt_0x h = (let body = trimEnd h in
     if body \<noteq> [] \<and> list_all isHexDigit body then Inr (int (hexValue body))
     else Inl SyntaxError)"

text \<open>\<open>toString(16)\<close> of a bigint, and of a number that is a natural number.\<close>

fun hexDigits :: "nat \<Rightarrow> string" where
  "hexDigits n = (if n < 16 then [hexDigit n] else hexDigits (n div 16) @ [hexDigit (n mod 16)])"

declare hexDigits.simps [simp del]

definition toString16 :: "int \<Rightarrow> string" where
  "toString16 v = (if v < 0 then CHR ''-'' # hexDigits (nat (- v)) else hexDigits (nat v))"

text \<open>\<open>s.padStart(2, "0")\<close>.\<close>

definition padStart2 :: "string \<Rightarrow> string" where
  "padStart2 s = replicate (2 - length s) CHR ''0'' @ s"

text \<open>\<open>s.split(c)\<close> for a separator of one character: never an empty list.\<close>

fun split :: "char \<Rightarrow> string \<Rightarrow> string list" where
  "split c [] = [[]]"
| "split c (a # s) =
     (if a = c then [] # split c s
      else (case split c s of [] \<Rightarrow> [[a]] | p # ps \<Rightarrow> (a # p) # ps))"

text \<open>A loop body that may throw, run over a list: the first exception ends the loop.\<close>

fun mapE :: "('a \<Rightarrow> js_error + 'b) \<Rightarrow> 'a list \<Rightarrow> js_error + 'b list" where
  "mapE f [] = Inr []"
| "mapE f (a # as) =
     (case f a of Inl e \<Rightarrow> Inl e
      | Inr b \<Rightarrow> (case mapE f as of Inl e \<Rightarrow> Inl e | Inr bs \<Rightarrow> Inr (b # bs)))"

section \<open>Encoding utilities (cryptoService.ts)\<close>

definition bufferToHex :: "byte list \<Rightarrow> string" where
  "bufferToHex buffer = concat (map (\<lambda>b. padStart2 (hexDigits (unat b))) buffer)"

text \<open>
  \<open>parseInt(s, 16)\<close>: leading white space, a sign, a prefix \<open>0x\<close>, then the longest run
  of hexadecimal digits; \<open>None\<close> is \<open>NaN\<close>.  A \<open>Uint8Array\<close> stores \<open>NaN\<close> as 0 and any
  other number modulo 256, and ignores a write beyond its length.
\<close>

definition parseInt16 :: "string \<Rightarrow> int option" where
  "parseInt16 s =
     (let S = dropWhile isWhiteSpace s;
          sign = (if S \<noteq> [] \<and> hd S = CHR ''-'' then - 1 else 1 :: int);
          S1 = (if S \<noteq> [] \<and> (hd S = CHR ''+'' \<or> hd S = CHR ''-'') then tl S else S);
          S2 = (if take 2 S1 = ''0x'' \<or> take 2 S1 = ''0X'' then drop 2 S1 else S1);
          Z = takeWhile isHexDigit S2
      in if Z = [] then None else Some (sign * int (hexValue Z)))"

definition toUint8 :: "int option \<Rightarrow> byte" where
  "toUint8 v = (case v of None \<Rightarrow> 0 | Some i \<Rightarrow> word_of_int i)"

function hexToBuffer_loop :: "string \<Rightarrow> nat \<Rightarrow> byte list \<Rightarrow> byte list" where
  "hexToBuffer_loop hex i bytes =
     (if i < length hex
      then hexToBuffer_loop hex (i + 2)
             (bytes[i div 2 := toUint8 (parseInt16 (take 2 (drop i hex)))])
      else bytes)"
  by pat_completeness auto
termination
  by (relation "measure (\<lambda>(hex, i, bytes). length hex - i)") auto

declare hexToBuffer_loop.simps [simp del]

definition hexToBuffer :: "string \<Rightarrow> byte list" where
  "hexToBuffer hex = hexToBuffer_loop hex 0 (replicate (length hex div 2) 0)"

text \<open>
  \<open>btoa\<close> and \<open>atob\<close> of the browser: base64 with padding, and its forgiving decoder,
  which drops ASCII white space and one or two closing \<open>=\<close> of a text whose length is a
  multiple of four, and throws on a length of 1 modulo 4 or a character outside the
  alphabet.  A string of this model has only code units below 256, for which \<open>btoa\<close>
  does not throw.
\<close>

definition b64chars :: string where
  "b64chars = ''ABCDEFGHIJKLMNOPQRSTUVWXYZabcdefghijklmnopqrstuvwxyz0123456789+/''"

fun indexOf :: "'a \<Rightarrow> 'a list \<Rightarrow> nat option" where
  "indexOf a [] = None"
| "indexOf a (b # bs) = (if a = b then Some 0 else map_option Suc (indexOf a bs))"

fun encodeSextets :: "nat list \<Rightarrow> nat list" where
  "encodeSextets (a # b # c # rest) =
     [a div 4, (a mod 4) * 16 + b div 16, (b mod 16) * 4 + c div 64, c mod 64] @ encodeSextets rest"
| "encodeSextets [a, b] = [a div 4, (a mod 4) * 16 + b div 16, (b mod 16) * 4]"
| "encodeSextets [a] = [a div 4, (a mod 4) * 16]"
| "encodeSextets [] = []"

fun decodeSextets :: "nat list \<Rightarrow> nat list" where
  "decodeSextets (a # b # c # d # rest) =
     [a * 4 + b div 16, (b mod 16) * 16 + c div 4, (c mod 4) * 64 + d] @ decodeSextets rest"
| "decodeSextets [a, b, c] = [a * 4 + b div 16, (b mod 16) * 16 + c div 4]"
| "decodeSextets [a, b] = [a * 4 + b div 16]"
| "decodeSextets _ = []"

definition btoa :: "string \<Rightarrow> string" where
  "btoa s =
     (let body = map (\<lambda>i. b64chars ! i) (encodeSextets (map of_char s))
      in body @ replicate ((4 - length body mod 4) mod 4) CHR ''='')"

definition isAsciiWhiteSpace :: "char \<Rightarrow> bool" where
  "isAsciiWhiteSpace c = ((of_char c :: nat) \<in> {9, 10, 12, 13, 32})"

definition stripPadding :: "string \<Rightarrow> string" where
  "stripPadding d =
     (if length d mod 4 = 0 \<and> d \<noteq> [] \<and> last d = CHR ''='' then
        (if butlast d \<noteq> [] \<and> last (butlast d) = CHR ''='' then butlast (butlast d)
         else butlast d)
      else d)"

definition atob :: "string \<Rightarrow> js_error + string" where
  "atob s =
     (let d = stripPadding (filter (\<lambda>c. \<not> isAsciiWhiteSpace c) s)
      in if length d mod 4 = 1 \<or> \<not> list_all (\<lambda>c. c \<in> set b64chars) d
         then Inl InvalidCharacterError
         else Inr (map char_of (decodeSextets (map (\<lambda>c. the (indexOf c b64chars)) d))))"

definition bufferToBase64 :: "byte list \<Rightarrow> string" where
  "bufferToBase64 buffer = btoa (foldl (\<lambda>binary b. binary @ [char_of (unat b)]) [] buffer)"

definition base64ToBuffer :: "string \<Rightarrow> js_error + byte list" where
  "base64ToBuffer base64 =
     (case atob base64 of Inl e \<Rightarrow> Inl e
      | Inr binary_string \<Rightarrow> Inr (map (\<lambda>c. word_of_nat (of_char c)) binary_string))"

section \<open>Shamir's secret sharing (cryptoService.ts)\<close>

text \<open>
  The random source: \<open>rng c i\<close> is byte \<open>i\<close> of what the \<open>c\<close>-th call of
  \<open>getRandomValues\<close> writes.  \<open>randomBigInt\<close> fills an array of 66 bytes.
\<close>

definition randomBigInt :: "(nat \<Rightarrow> byte) \<Rightarrow> js_error + int" where
  "randomBigInt fill =
     (let array = map fill [0..<66] in
      case BigInt_0x (bufferToHex array) of Inl e \<Rightarrow> Inl e
      | Inr val \<Rightarrow> Inr (val smod PRIME_MODULUS))"

text \<open>The loop of \<open>evalPoly\<close> over the coefficients, with its two variables.\<close>

fun evalPoly_loop :: "int list \<Rightarrow> int \<Rightarrow> int \<Rightarrow> int \<Rightarrow> int" where
  "evalPoly_loop [] x result powerOfX = result"
| "evalPoly_loop (coeff # coeffs) x result powerOfX =
     evalPoly_loop coeffs x
       ((result + coeff * powerOfX) smod PRIME_MODULUS)
       ((powerOfX * x) smod PRIME_MODULUS)"

definition evalPoly :: "int list \<Rightarrow> int \<Rightarrow> int" where
  "evalPoly coeffs x = evalPoly_loop coeffs x 0 1"

definition splitSecret :: "(nat \<Rightarrow> nat \<Rightarrow> byte) \<Rightarrow> string \<Rightarrow> int \<Rightarrow> int \<Rightarrow> js_error + Share list" where
  "splitSecret rng secretHex n k =
     (case BigInt_0x secretHex of Inl e \<Rightarrow> Inl e
      | Inr secret \<Rightarrow>
        (case mapE (\<lambda>i. randomBigInt (rng (nat (i - 1)))) [1..k - 1] of Inl e \<Rightarrow> Inl e
         | Inr randoms \<Rightarrow>
           (let coeffs = secret # randoms in
            Inr (map (\<lambda>i. \<lparr>share_id = i,
                           data = toString16 i @ ''-'' @ toString16 (evalPoly coeffs i)\<rparr>)
                     [1..n]))))"

text \<open>
  The loop of \<open>modInverse\<close>.  The bigint division \<open>a / m\<close> truncates and throws a
  \<open>RangeError\<close> when \<open>m\<close> is zero.
\<close>

function modInverse_loop :: "int \<Rightarrow> int \<Rightarrow> int \<Rightarrow> int \<Rightarrow> js_error + int" where
  "modInverse_loop a m x y =
     (if a > 1 then
        (if m = 0 then Inl RangeError
         else modInverse_loop m (a smod m) y (x - (a sdiv m) * y))
      else Inr x)"
  by pat_completeness auto
termination
proof (relation "measure (\<lambda>(a, m, x, y). nat \<bar>m\<bar>)")
  show "wf (measure (\<lambda>(a, m, x, y). nat \<bar>m\<bar>))"
    by simp
next
  fix a m x y :: int
  assume "1 < a" and "m \<noteq> 0"
  then have "\<bar>a smod m\<bar> < \<bar>m\<bar>"
    by (simp add: signed_modulo_int_def abs_mult)
  then show "((m, a smod m, y, x - a sdiv m * y), a, m, x, y) \<in> measure (\<lambda>(a, m, x, y). nat \<bar>m\<bar>)"
    by simp
qed

declare modInverse_loop.simps [simp del]

definition modInverse :: "int \<Rightarrow> int \<Rightarrow> js_error + int" where
  "modInverse a m =
     (if m = 1 then Inr 0
      else (case modInverse_loop a m 1 0 of Inl e \<Rightarrow> Inl e
            | Inr x \<Rightarrow> Inr (if x < 0 then x + m else x)))"

text \<open>A point \<open>{x, y}\<close> is a pair.  A share's text is split at every \<open>-\<close>; the first two
  parts are read, and a missing second part is the value \<open>undefined\<close>, which the
  concatenation turns into the text \<open>undefined\<close>.\<close>

definition parsePoint :: "Share \<Rightarrow> js_error + (int \<times> int)" where
  "parsePoint s =
     (let parts = split CHR ''-'' (data s);
          xHex = (case parts of [] \<Rightarrow> ''undefined'' | p # _ \<Rightarrow> p);
          yHex = (case parts of _ # q # _ \<Rightarrow> q | _ \<Rightarrow> ''undefined'')
      in case BigInt_0x xHex of Inl e \<Rightarrow> Inl e
         | Inr x \<Rightarrow> (case BigInt_0x yHex of Inl e \<Rightarrow> Inl e | Inr y \<Rightarrow> Inr (x, y)))"

text \<open>One round of the inner loop over \<open>m\<close>, on the pair (numerator, denominator).\<close>

definition basisStep :: "(int \<times> int) list \<Rightarrow> nat \<Rightarrow> int \<Rightarrow> nat \<Rightarrow> int \<times> int \<Rightarrow> int \<times> int" where
  "basisStep points j xj m acc =
     (case acc of (numerator, denominator) \<Rightarrow>
        if m = j then (numerator, denominator)
        else
          (let xm = fst (points ! m);
               numerator' = (numerator * xm) smod PRIME_MODULUS;
               diff = (xm - xj) smod PRIME_MODULUS;
               diff' = (if diff < 0 then diff + PRIME_MODULUS else diff)
           in (numerator', (denominator * diff') smod PRIME_MODULUS)))"

definition basis :: "(int \<times> int) list \<Rightarrow> nat \<Rightarrow> int \<times> int" where
  "basis points j = fold (basisStep points j (fst (points ! j))) [0..<length points] (1, 1)"

text \<open>One round of the outer loop over \<open>j\<close>, on \<open>secret\<close>; an exception stays.\<close>

definition secretStep :: "(int \<times> int) list \<Rightarrow> nat \<Rightarrow> js_error + int \<Rightarrow> js_error + int" where
  "secretStep points j acc =
     (case acc of Inl e \<Rightarrow> Inl e
      | Inr secret \<Rightarrow>
        (case basis points j of (numerator, denominator) \<Rightarrow>
           (case modInverse denominator PRIME_MODULUS of Inl e \<Rightarrow> Inl e
            | Inr invDenominator \<Rightarrow>
              (let term = (snd (points ! j) * numerator * invDenominator) smod PRIME_MODULUS
               in Inr ((secret + term) smod PRIME_MODULUS)))))"

definition padEven :: "string \<Rightarrow> string" where
  "padEven hex = (if length hex mod 2 \<noteq> 0 then CHR ''0'' # hex else hex)"

definition reconstructSecret :: "Share list \<Rightarrow> js_error + string" where
  "reconstructSecret shares =
     (case mapE parsePoint shares of Inl e \<Rightarrow> Inl e
      | Inr points \<Rightarrow>
        (case fold (secretStep points) [0..<length points] (Inr 0) of Inl e \<Rightarrow> Inl e
         | Inr secret \<Rightarrow>
           (let secret' = (if secret < 0 then secret + PRIME_MODULUS else secret)
            in Inr (padEven (toString16 secret')))))"

section \<open>The application state and its handlers (App.tsx)\<close>

text \<open>
  The state of the component, as far as the configuration and the recovery flow use it.
  \<open>recoveryShares\<close> is an object with integer keys, whose values are listed in ascending
  order of the keys: an association list kept in that order.
\<close>

record AppState =
  config :: AppConfig
  logs :: "AuditLog list"
  encryptedFile :: "EncryptedFile option"
  recoveryShares :: "(nat \<times> string) list"
  recoveredFileUrl :: "string option"
  isRecovering :: bool
  recoveryError :: "string option"

text \<open>A number that is an integer, written by a template literal.\<close>

fun decDigits :: "nat \<Rightarrow> string" where
  "decDigits n = (if n < 10 then [char_of (48 + n)] else decDigits (n div 10) @ [char_of (48 + n mod 10)])"

declare decDigits.simps [simp del]

definition numberToString :: "int \<Rightarrow> string" where
  "numberToString v = (if v < 0 then CHR ''-'' # decDigits (nat (- v)) else decDigits (nat v))"

definition addLog :: "log_action \<Rightarrow> string \<Rightarrow> string \<Rightarrow> string option \<Rightarrow> AppState \<Rightarrow> AppState" where
  "addLog act det who fh s =
     s\<lparr>logs := logs s @ [\<lparr>action = act, actor = who, details = det, fileHash = fh\<rparr>]\<rparr>"

fun setKey :: "nat \<Rightarrow> string \<Rightarrow> (nat \<times> string) list \<Rightarrow> (nat \<times> string) list" where
  "setKey i v [] = [(i, v)]"
| "setKey i v ((j, w) # rest) =
     (if i = j then (i, v) # rest
      else if i < j then (i, v) # (j, w) # rest
      else (j, w) # setKey i v rest)"

definition handleShareInput :: "nat \<Rightarrow> string \<Rightarrow> AppState \<Rightarrow> AppState" where
  "handleShareInput index val s = s\<lparr>recoveryShares := setKey index val (recoveryShares s)\<rparr>"

text \<open>
  The handlers of the two sliders of the management tab, as functions of the value
  \<open>parseInt(e.target.value)\<close> that they compute first.
\<close>

definition onChangeTotalShares :: "int \<Rightarrow> AppState \<Rightarrow> AppState" where
  "onChangeTotalShares n s =
     (let k = min (threshold (config s)) n
      in addLog CONFIG_CHANGE (''Updated Total Shares (n) to '' @ numberToString n) ''Admin'' None
           (s\<lparr>config := \<lparr>totalShares = n, threshold = k\<rparr>\<rparr>))"

definition onChangeThreshold :: "int \<Rightarrow> AppState \<Rightarrow> AppState" where
  "onChangeThreshold k s =
     addLog CONFIG_CHANGE (''Updated Threshold (k) to '' @ numberToString k) ''Admin'' None
       (s\<lparr>config := (config s)\<lparr>threshold := k\<rparr>\<rparr>)"

text \<open>
  \<open>parseInt(s)\<close> without a radix: leading white space, a sign, then either the prefix
  \<open>0x\<close> with the longest run of hexadecimal digits, or the longest run of decimal
  digits; \<open>None\<close> is \<open>NaN\<close>.
\<close>

definition isDecDigit :: "char \<Rightarrow> bool" where
  "isDecDigit c = (let n = (of_char c :: nat) in 48 \<le> n \<and> n \<le> 57)"

definition decValue :: "string \<Rightarrow> nat" where
  "decValue s = foldl (\<lambda>acc c. 10 * acc + ((of_char c :: nat) - 48)) 0 s"

definition parseInt :: "string \<Rightarrow> int option" where
  "parseInt s =
     (let S = dropWhile isWhiteSpace s;
          sign = (if S \<noteq> [] \<and> hd S = CHR ''-'' then - 1 else 1 :: int);
          S1 = (if S \<noteq> [] \<and> (hd S = CHR ''+'' \<or> hd S = CHR ''-'') then tl S else S)
      in if take 2 S1 = ''0x'' \<or> take 2 S1 = ''0X''
         then (let Z = takeWhile isHexDigit (drop 2 S1)
               in if Z = [] then None else Some (sign * int (hexValue Z)))
         else (let Z = takeWhile isDecDigit S1
               in if Z = [] then None else Some (sign * int (decValue Z))))"

text \<open>
  The sliders themselves: \<open>input\<close> elements of type \<open>range\<close> with integer \<open>min\<close> and
  \<open>max\<close> attributes and no \<open>step\<close> attribute, so that the steps are \<open>min\<close>, \<open>min + 1\<close>,
  and so on.  The browser sanitises every value that the element is given: what is no
  number becomes the default value (the middle of the range, or \<open>min\<close> when
  \<open>max < min\<close>), a number below \<open>min\<close> becomes \<open>min\<close>, a number above \<open>max\<close> becomes
  \<open>max\<close> (when \<open>min \<le> max\<close>), and the result is rounded to the nearest step, upwards
  from the middle between two steps.  \<open>raw\<close> is the number that the user asks for
  (\<open>None\<close>: no number at all), \<open>rangeValue\<close> the value of the element after that, and
  \<open>targetValue\<close> its decimal text, which the handler finds in \<open>e.target.value\<close>.
\<close>

definition rangeValue :: "int \<Rightarrow> int \<Rightarrow> rat option \<Rightarrow> int" where
  "rangeValue lo hi raw =
     (let dflt = (if hi < lo then of_int lo else of_int lo + (of_int hi - of_int lo) / 2);
          v0 = (case raw of None \<Rightarrow> dflt | Some r \<Rightarrow> r);
          v1 = (if v0 < of_int lo then of_int lo else v0);
          v2 = (if lo \<le> hi \<and> of_int hi < v1 then of_int hi else v1)
      in lo + \<lfloor>v2 - of_int lo + 1 / 2\<rfloor>)"

definition targetValue :: "int \<Rightarrow> int \<Rightarrow> rat option \<Rightarrow> string" where
  "targetValue lo hi raw = numberToString (rangeValue lo hi raw)"

text \<open>
  A change of a slider by the user, on the state that was rendered: the first slider
  has \<open>min = MIN_SHARES\<close> and \<open>max = MAX_SHARES\<close>, the second \<open>min = 2\<close> and
  \<open>max = config.totalShares\<close>.  With \<open>NaN\<close> from \<open>parseInt\<close> the handler would store
  \<open>NaN\<close> in the configuration, which is no state of this development: \<open>None\<close>.
\<close>

definition changeTotalShares :: "rat option \<Rightarrow> AppState \<Rightarrow> AppState option" where
  "changeTotalShares raw s =
     (case parseInt (targetValue MIN_SHARES MAX_SHARES raw) of
        None \<Rightarrow> None
      | Some n \<Rightarrow> Some (onChangeTotalShares n s))"

definition changeThreshold :: "rat option \<Rightarrow> AppState \<Rightarrow> AppState option" where
  "changeThreshold raw s =
     (case parseInt (targetValue 2 (totalShares (config s)) raw) of
        None \<Rightarrow> None
      | Some k \<Rightarrow> Some (onChangeThreshold k s))"

definition configInvariant :: "AppConfig \<Rightarrow> bool" where
  "configInvariant c = (2 \<le> threshold c \<and> threshold c \<le> totalShares c \<and> totalShares c \<le> MAX_SHARES)"

text \<open>
  The platform behind the recovery: importing a raw AES key, AES-GCM decryption (key,
  iv, data) and the URL of a blob, which this development leaves open.
\<close>

record Platform =
  importKey :: "byte list \<Rightarrow> js_error + byte list"
  decrypt :: "byte list \<Rightarrow> byte list \<Rightarrow> byte list \<Rightarrow> js_error + byte list"
  createObjectURL :: "byte list \<Rightarrow> string \<Rightarrow> string"

datatype crypto_call =
  Call_reconstructSecret | Call_importKeyFromHex | Call_base64ToBuffer | Call_hexToBuffer
| Call_decryptFile

text \<open>
  The body of the \<open>try\<close> block: the URL of the decrypted file or the exception that
  ended the block, with the calls into the crypto service that were made.
\<close>

definition recoverFile :: "Platform \<Rightarrow> EncryptedFile \<Rightarrow> Share list \<Rightarrow> (js_error + string) \<times> crypto_call list" where
  "recoverFile plat ef sharesList =
     (case reconstructSecret sharesList of
        Inl e \<Rightarrow> (Inl e, [Call_reconstructSecret])
      | Inr keyHex \<Rightarrow>
        (case importKey plat (hexToBuffer keyHex) of
           Inl e \<Rightarrow> (Inl e, [Call_reconstructSecret, Call_importKeyFromHex])
         | Inr key \<Rightarrow>
           (case base64ToBuffer (file_data ef) of
              Inl e \<Rightarrow> (Inl e, [Call_reconstructSecret, Call_importKeyFromHex, Call_base64ToBuffer])
            | Inr encryptedData \<Rightarrow>
              (let calls = [Call_reconstructSecret, Call_importKeyFromHex, Call_base64ToBuffer,
                            Call_hexToBuffer, Call_decryptFile]
               in case decrypt plat key (hexToBuffer (iv ef)) encryptedData of
                    Inl e \<Rightarrow> (Inl e, calls)
                  | Inr decryptedBuffer \<Rightarrow>
                      (Inr (createObjectURL plat decryptedBuffer (file_type ef)), calls)))))"

definition sharesListOf :: "AppState \<Rightarrow> Share list" where
  "sharesListOf s =
     map (\<lambda>v. \<lparr>share_id = 0, data = trim v\<rparr>)
       (filter (\<lambda>v. trim v \<noteq> []) (map snd (recoveryShares s)))"

text \<open>\<open>processRecovery\<close> of App.tsx: the new state and the crypto calls made.\<close>

definition processRecovery :: "Platform \<Rightarrow> AppState \<Rightarrow> AppState \<times> crypto_call list" where
  "processRecovery plat s =
     (case encryptedFile s of
        None \<Rightarrow> (s\<lparr>recoveryError := Some ''No file is currently stored in the contract.''\<rparr>, [])
      | Some ef \<Rightarrow>
        (let sharesList = sharesListOf s in
         if int (length sharesList) < threshold (config s) then
           (s\<lparr>recoveryError := Some (''Need at least '' @ numberToString (threshold (config s))
                @ '' shares. Provided: '' @ numberToString (int (length sharesList)))\<rparr>, [])
         else
           (let s1 = addLog RECOVERY_ATTEMPT
                       (''Attempting reconstruction with '' @ numberToString (int (length sharesList))
                          @ '' shares.'') ''ConsensusWrapper'' None
                       (s\<lparr>isRecovering := True, recoveryError := None\<rparr>)
            in case recoverFile plat ef sharesList of
                 (Inr url, calls) \<Rightarrow>
                   ((addLog RECOVERY_SUCCESS ''Key reconstructed and file decrypted successfully.''
                       ''ConsensusWrapper'' (Some (hash ef))
                       (s1\<lparr>recoveredFileUrl := Some url\<rparr>))\<lparr>isRecovering := False\<rparr>, calls)
               | (Inl e, calls) \<Rightarrow>
                   ((addLog RECOVERY_ATTEMPT ''Reconstruction failed: Invalid key derived.'' ''System'' None
                       (s1\<lparr>recoveryError := Some
                          ''Decryption failed. Shares might be invalid or incorrect key reconstructed.''\<rparr>))
                      \<lparr>isRecovering := False\<rparr>, calls))))"

text \<open>\<open>processRecovery\<close> of the second copy of the component, which logs a rejection.\<close>

definition processRecovery2 :: "Platform \<Rightarrow> AppState \<Rightarrow> AppState \<times> crypto_call list" where
  "processRecovery2 plat s =
     (case encryptedFile s of
        None \<Rightarrow> (s\<lparr>recoveryError := Some ''No file is currently stored in the contract.''\<rparr>, [])
      | Some ef \<Rightarrow>
        (let sharesList = sharesListOf s in
         if int (length sharesList) < threshold (config s) then
           (addLog RECOVERY_FAILED
              (''Recovery rejected. Insufficient shares provided (''
                 @ numberToString (int (length sharesList)) @ ''/''
                 @ numberToString (threshold (config s)) @ '').'') ''ConsensusWrapper'' None
              (s\<lparr>recoveryError := Some (''Need at least '' @ numberToString (threshold (config s))
                   @ '' shares. Provided: '' @ numberToString (int (length sharesList)))\<rparr>), [])
         else
           (let s1 = addLog RECOVERY_ATTEMPT
                       (''Initiating reconstruction consensus with ''
                          @ numberToString (int (length sharesList)) @ '' shares.'')
                       ''ConsensusWrapper'' None
                       (s\<lparr>isRecovering := True, recoveryError := None\<rparr>)
            in case recoverFile plat ef sharesList of
                 (Inr url, calls) \<Rightarrow>
                   ((addLog RECOVERY_SUCCESS
                       (''Consensus reached. File decrypted successfully using ''
                          @ numberToString (int (length sharesList)) @ '' shares.'')
                       ''ConsensusWrapper'' (Some (hash ef))
                       (s1\<lparr>recoveredFileUrl := Some url\<rparr>))\<lparr>isRecovering := False\<rparr>, calls)
               | (Inl e, calls) \<Rightarrow>
                   ((addLog RECOVERY_FAILED
                       (''Recovery failed. The provided '' @ numberToString (int (length sharesList))
                          @ '' shares produced an invalid key.'') ''System'' None
                       (s1\<lparr>recoveryError := Some
                          ''Decryption failed. Shares might be invalid or incorrect key reconstructed.''\<rparr>))
                      \<lparr>isRecovering := False\<rparr>, calls))))"

text \<open>
  What a rejected attempt looks like from the state \<open>s\<close> it started in: no call into the
  crypto service, a message in \<open>recoveryError\<close>, and every other part of the state but
  the log as it was.
\<close>

definition rejectedUnchanged :: "AppState \<Rightarrow> AppState \<times> crypto_call list \<Rightarrow> bool" where
  "rejectedUnchanged s r =
     (snd r = []
      \<and> recoveryError (fst r) \<noteq> None
      \<and> encryptedFile (fst r) = encryptedFile s
      \<and> recoveredFileUrl (fst r) = recoveredFileUrl s
      \<and> recoveryShares (fst r) = recoveryShares s
      \<and> isRecovering (fst r) = isRecovering s
      \<and> config (fst r) = config s)"

section \<open>Example states\<close>

definition state0 :: AppState where
  "state0 = \<lparr>config = DEFAULT_CONFIG, logs = [], encryptedFile = None, recoveryShares = [],
             recoveredFileUrl = None, isRecovering = False, recoveryError = None\<rparr>"

definition file1 :: EncryptedFile where
  "file1 = \<lparr>file_name = ''a.txt'', file_type = ''text/plain'', file_size = 1,
            file_data = ''AAAA'', iv = ''00'', hash = ''00''\<rparr>"

definition state1 :: AppState where
  "state1 = state0\<lparr>encryptedFile := Some file1,
                   recoveryShares := [(0, ''1-5 ''), (1, ''  ''), (2, [])]\<rparr>"

definition plat0 :: Platform where
  "plat0 = \<lparr>importKey = (\<lambda>raw. if length raw \<in> {16, 24, 32} then Inr raw else Inl DataError),
            decrypt = (\<lambda>key nonce ciphertext. Inl OperationError),
            createObjectURL = (\<lambda>blob mime. ''blob:0'')\<rparr>"

section \<open>Share texts that the parser accepts\<close>

text \<open>
  What \<open>parsePoint\<close> accepts, read off its code: the text, split at every \<open>-\<close>, has at
  least two parts, and each of the first two parts starts with one or more hexadecimal
  digits (of either case) and has nothing but white space after them.  Further parts
  are not looked at.
\<close>

definition hexLiteral :: "string \<Rightarrow> bool" where
  "hexLiteral h = (takeWhile isHexDigit h \<noteq> [] \<and> list_all isWhiteSpace (dropWhile isHexDigit h))"

definition parsableShareText :: "string \<Rightarrow> bool" where
  "parsableShareText d =
     (case split CHR ''-'' d of xHex # yHex # _ \<Rightarrow> hexLiteral xHex \<and> hexLiteral yHex | _ \<Rightarrow> False)"

section \<open>Notions of the specification\<close>

text \<open>The value \<open>\<Sum> coeffs[i] * x^i\<close> of a polynomial, and the lower-case hexadecimal digits.\<close>

definition polyValue :: "int list \<Rightarrow> int \<Rightarrow> int" where
  "polyValue coeffs x = (\<Sum>i<length coeffs. coeffs ! i * x ^ i)"

definition isLowerHexDigit :: "char \<Rightarrow> bool" where
  "isLowerHexDigit c = (let n = (of_char c :: nat) in (48 \<le> n \<and> n \<le> 57) \<or> (97 \<le> n \<and> n \<le> 102))"

text \<open>
  The share text of the external interface, \<open>"<x in lowercase hex>-<y in lowercase hex>"\<close>:
  one or more lower-case hexadecimal digits, the delimiter \<open>-\<close>, one or more lower-case
  hexadecimal digits, and nothing else.
\<close>

definition specShareText :: "string \<Rightarrow> bool" where
  "specShareText d =
     (let x = takeWhile (\<lambda>c. c \<noteq> CHR ''-'') d;
          rest = dropWhile (\<lambda>c. c \<noteq> CHR ''-'') d
      in x \<noteq> [] \<and> list_all isLowerHexDigit x
         \<and> rest \<noteq> [] \<and> tl rest \<noteq> [] \<and> list_all isLowerHexDigit (tl rest))"

section \<open>The interpolation as a sum of terms\<close>

text \<open>
  The term that round \<open>j\<close> of the outer loop of \<open>reconstructSecret\<close> adds, and the
  value of the loop as the sum of these terms; then the same for a multiset of points,
  where the other points of a round are the multiset without the point of the round.
\<close>

definition termAt :: "(int \<times> int) list \<Rightarrow> nat \<Rightarrow> js_error + int" where
  "termAt points j =
     (case basis points j of (numerator, denominator) \<Rightarrow>
        (case modInverse denominator PRIME_MODULUS of Inl e \<Rightarrow> Inl e
         | Inr invDenominator \<Rightarrow> Inr (snd (points ! j) * numerator * invDenominator)))"

definition interpolateAt :: "(int \<times> int) list \<Rightarrow> js_error + int" where
  "interpolateAt points =
     (if \<exists>j<length points. isl (termAt points j) then Inl RangeError
      else Inr ((\<Sum>j<length points. projr (termAt points j)) mod PRIME_MODULUS))"

definition termOf :: "(int \<times> int) multiset \<Rightarrow> int \<times> int \<Rightarrow> js_error + int" where
  "termOf M p =
     (case modInverse ((\<Prod>q \<in># M - {#p#}. (fst q - fst p) mod PRIME_MODULUS) mod PRIME_MODULUS)
             PRIME_MODULUS of
        Inl e \<Rightarrow> Inl e
      | Inr invDenominator \<Rightarrow>
          Inr (snd p * ((\<Prod>q \<in># M - {#p#}. fst q) mod PRIME_MODULUS) * invDenominator))"

definition interpolateM :: "(int \<times> int) multiset \<Rightarrow> js_error + int" where
  "interpolateM M =
     (if \<exists>p \<in># M. isl (termOf M p) then Inl RangeError
      else Inr ((\<Sum>p \<in># M. projr (termOf M p)) mod PRIME_MODULUS))"

section \<open>Invertible differences\<close>

text \<open>
  The x values of a share list are such that any two of them are congruent modulo \<open>P\<close>
  or differ by a number that is invertible modulo \<open>P\<close>.  (For a prime \<open>P\<close> this is no
  restriction; the primality of \<open>2^521 - 1\<close> is not used in this development.)
\<close>

definition zeroOrUnitDiffs :: "int list \<Rightarrow> bool" where
  "zeroOrUnitDiffs xs =
     (\<forall>a \<in> set xs. \<forall>b \<in> set xs. (a - b) mod PRIME_MODULUS = 0 \<or> coprime (a - b) PRIME_MODULUS)"

section \<open>Interpolating polynomials\<close>

text \<open>
  The x values at different positions of a share list differ by numbers invertible modulo
  \<open>P\<close> (for the prime \<open>P\<close>: they are distinct modulo \<open>P\<close>).  A coefficient list
  interpolates a list of points when it has at most as many coefficients as there are
  points and its polynomial takes the value \<open>y\<close> at \<open>x\<close>, modulo \<open>P\<close>, for every point.
  A function on the integers is a polynomial of degree at most \<open>n\<close>.
\<close>

definition unitDiffs :: "int list \<Rightarrow> bool" where
  "unitDiffs xs =
     (\<forall>i<length xs. \<forall>j<length xs. i \<noteq> j \<longrightarrow> coprime (xs ! i - xs ! j) PRIME_MODULUS)"

definition interpolates :: "int list \<Rightarrow> (int \<times> int) list \<Rightarrow> bool" where
  "interpolates cs points =
     (length cs \<le> length points
      \<and> (\<forall>p \<in> set points. polyValue cs (fst p) mod PRIME_MODULUS = snd p mod PRIME_MODULUS))"

definition polyDeg :: "nat \<Rightarrow> (int \<Rightarrow> int) \<Rightarrow> bool" where
  "polyDeg n g = (\<exists>c. \<forall>x. g x = (\<Sum>i\<le>n. c i * x ^ i))"

section \<open>The configuration keeps its invariant\<close>

lemma DEFAULT_CONFIG_invariant: "configInvariant DEFAULT_CONFIG"
  by (simp add: configInvariant_def DEFAULT_CONFIG_def MAX_SHARES_def)

text \<open>
  What a slider delivers lies between its \<open>min\<close> and its \<open>max\<close>, whatever the user asks
  for, and \<open>parseInt\<close> reads the decimal text of an integer back as that integer.
\<close>

lemma rangeValue_bounds:
  assumes "lo \<le> hi"
  shows "lo \<le> rangeValue lo hi raw" and "rangeValue lo hi raw \<le> hi"
proof -
  define dflt :: rat where "dflt = of_int lo + (of_int hi - of_int lo) / 2"
  define v0 where "v0 = (case raw of None \<Rightarrow> dflt | Some r \<Rightarrow> r)"
  define v1 where "v1 = (if v0 < of_int lo then of_int lo else v0)"
  define v2 where "v2 = (if of_int hi < v1 then of_int hi else v1)"
  have nl: "\<not> hi < lo"
    using assms by simp
  have val: "rangeValue lo hi raw = lo + \<lfloor>v2 - of_int lo + 1 / 2\<rfloor>"
    unfolding rangeValue_def Let_def v2_def v1_def v0_def dflt_def by (simp only: nl assms if_False simp_thms)
  have lo: "of_int lo \<le> v2" and hi: "v2 \<le> of_int hi"
    using assms by (auto simp: v2_def v1_def)
  from lo have "0 \<le> \<lfloor>v2 - of_int lo + 1 / 2\<rfloor>"
    by simp
  then show "lo \<le> rangeValue lo hi raw"
    by (simp add: val)
  from hi have "v2 - of_int lo + 1 / 2 < of_int (hi - lo + 1)"
    by simp
  then have "\<lfloor>v2 - of_int lo + 1 / 2\<rfloor> < hi - lo + 1"
    by (simp only: floor_less_iff)
  then show "rangeValue lo hi raw \<le> hi"
    by (simp add: val)
qed

lemma decValue_snoc: "decValue (s @ [c]) = 10 * decValue s + ((of_char c :: nat) - 48)"
  by (simp add: decValue_def)

lemma decDigits_value: "decValue (decDigits n) = n"
proof (induction n rule: decDigits.induct)
  case (1 n)
  show ?case
  proof (cases "n < 10")
    case True
    then show ?thesis
      by (subst decDigits.simps) (simp add: decValue_def)
  next
    case False
    with 1 show ?thesis
      by (subst decDigits.simps) (simp add: decValue_snoc)
  qed
qed

lemma isDecDigit_char_of: "d < 10 \<Longrightarrow> isDecDigit (char_of (48 + (d::nat)))"
  by (simp add: isDecDigit_def Let_def)

lemma decDigits_digits: "list_all isDecDigit (decDigits n)"
  by (induction n rule: decDigits.induct) (subst decDigits.simps, simp add: isDecDigit_char_of)

lemma decDigits_not_Nil: "decDigits n \<noteq> []"
  by (subst decDigits.simps) simp

lemma parseInt_digits:
  assumes "ds \<noteq> []" and "list_all isDecDigit ds"
  shows "parseInt ds = Some (int (decValue ds))"
    and "parseInt (CHR ''-'' # ds) = Some (- int (decValue ds))"
proof -
  have h: "isDecDigit (hd ds)"
    using assms by (cases ds) auto
  then have nws: "\<not> isWhiteSpace (hd ds)" and nsign: "hd ds \<noteq> CHR ''+''" "hd ds \<noteq> CHR ''-''"
    by (auto simp: isDecDigit_def isWhiteSpace_def Let_def)
  have nx: "\<not> isDecDigit CHR ''x''" "\<not> isDecDigit CHR ''X''"
    by (simp_all add: isDecDigit_def)
  have p: "take 2 ds \<noteq> ''0x''" "take 2 ds \<noteq> ''0X''"
    using assms(2) nx by (cases ds; cases "tl ds"; auto)+
  have d: "dropWhile isWhiteSpace ds = ds"
    using assms(1) nws by (cases ds) auto
  have t: "takeWhile isDecDigit ds = ds"
    using assms(2) by (simp add: list_all_iff)
  have m: "\<not> isWhiteSpace CHR ''-''"
    by (simp add: isWhiteSpace_def)
  show "parseInt ds = Some (int (decValue ds))"
    using assms(1) nsign by (simp add: parseInt_def Let_def p d t)
  show "parseInt (CHR ''-'' # ds) = Some (- int (decValue ds))"
    using assms(1) by (simp add: parseInt_def Let_def p t m)
qed

lemma parseInt_numberToString: "parseInt (numberToString v) = Some v"
  using parseInt_digits [OF decDigits_not_Nil decDigits_digits]
  by (simp add: numberToString_def decDigits_value)

lemma onChange_within_bounds:
  assumes "configInvariant (config s)"
  shows "MIN_SHARES \<le> n \<Longrightarrow> n \<le> MAX_SHARES \<Longrightarrow> configInvariant (config (onChangeTotalShares n s))"
    and "totalShares (config (onChangeTotalShares n s)) = n"
    and "threshold (config (onChangeTotalShares n s))
         = (if threshold (config s) > n then n else threshold (config s))"
    and "2 \<le> k \<Longrightarrow> k \<le> totalShares (config s) \<Longrightarrow> configInvariant (config (onChangeThreshold k s))"
    and "threshold (config (onChangeThreshold k s)) = k"
    and "totalShares (config (onChangeThreshold k s)) = totalShares (config s)"
  using assms
  by (auto simp: configInvariant_def onChangeTotalShares_def onChangeThreshold_def addLog_def
        MIN_SHARES_def MAX_SHARES_def Let_def)

text \<open>
  The handler of the threshold slider stores its argument as it is: the bound on the
  threshold is the one of the slider, its \<open>min\<close> and \<open>max\<close> attributes, and a value
  such as 9 cannot reach the handler while \<open>totalShares\<close> is 5.
\<close>

lemma onChangeThreshold_unchecked:
  "configInvariant (config state0)"
  "threshold (config (onChangeThreshold 9 state0)) = 9"
  "\<not> configInvariant (config (onChangeThreshold 9 state0))"
  by (simp_all add: configInvariant_def onChangeThreshold_def addLog_def state0_def
        DEFAULT_CONFIG_def MAX_SHARES_def)

text \<open>
  Claim C8.  The invariant \<open>2 \<le> threshold \<le> totalShares \<le> 10\<close> survives every change of
  the configuration.  Whatever the user asks of it, the total-shares slider delivers a
  value \<open>n\<close> between \<open>MIN_SHARES\<close> and \<open>MAX_SHARES\<close>, and its handler sets \<open>totalShares\<close>
  to \<open>n\<close> and lowers a larger threshold to \<open>n\<close>; the threshold slider delivers a value
  \<open>k\<close> between 2 and \<open>totalShares\<close>, and its handler stores \<open>k\<close> as the threshold and
  leaves \<open>totalShares\<close> alone.  Neither change ends with \<open>NaN\<close> in the configuration.
\<close>

theorem config_invariant_preserved:
  assumes "configInvariant (config s)"
  shows "(\<exists>n. parseInt (targetValue MIN_SHARES MAX_SHARES raw) = Some n
            \<and> MIN_SHARES \<le> n \<and> n \<le> MAX_SHARES
            \<and> changeTotalShares raw s = Some (onChangeTotalShares n s)
            \<and> configInvariant (config (onChangeTotalShares n s))
            \<and> totalShares (config (onChangeTotalShares n s)) = n
            \<and> threshold (config (onChangeTotalShares n s))
                = (if threshold (config s) > n then n else threshold (config s)))
       \<and> (\<exists>k. parseInt (targetValue 2 (totalShares (config s)) raw') = Some k
            \<and> 2 \<le> k \<and> k \<le> totalShares (config s)
            \<and> changeThreshold raw' s = Some (onChangeThreshold k s)
            \<and> configInvariant (config (onChangeThreshold k s))
            \<and> threshold (config (onChangeThreshold k s)) = k
            \<and> totalShares (config (onChangeThreshold k s)) = totalShares (config s))"
proof (rule conjI)
  let ?n = "rangeValue MIN_SHARES MAX_SHARES raw"
  have "MIN_SHARES \<le> MAX_SHARES"
    by (simp add: MIN_SHARES_def MAX_SHARES_def)
  then have b: "MIN_SHARES \<le> ?n" "?n \<le> MAX_SHARES"
    by (rule rangeValue_bounds)+
  have p: "parseInt (targetValue MIN_SHARES MAX_SHARES raw) = Some ?n"
    by (simp add: targetValue_def parseInt_numberToString)
  then have "changeTotalShares raw s = Some (onChangeTotalShares ?n s)"
    by (simp add: changeTotalShares_def)
  with p b onChange_within_bounds(1-3) [OF assms, of ?n]
  show "\<exists>n. parseInt (targetValue MIN_SHARES MAX_SHARES raw) = Some n
            \<and> MIN_SHARES \<le> n \<and> n \<le> MAX_SHARES
            \<and> changeTotalShares raw s = Some (onChangeTotalShares n s)
            \<and> configInvariant (config (onChangeTotalShares n s))
            \<and> totalShares (config (onChangeTotalShares n s)) = n
            \<and> threshold (config (onChangeTotalShares n s))
                = (if threshold (config s) > n then n else threshold (config s))"
    by (intro exI [of _ ?n]) simp
next
  let ?k = "rangeValue 2 (totalShares (config s)) raw'"
  have "2 \<le> totalShares (config s)"
    using assms by (simp add: configInvariant_def)
  then have b: "2 \<le> ?k" "?k \<le> totalShares (config s)"
    by (rule rangeValue_bounds)+
  have p: "parseInt (targetValue 2 (totalShares (config s)) raw') = Some ?k"
    by (simp add: targetValue_def parseInt_numberToString)
  then have "changeThreshold raw' s = Some (onChangeThreshold ?k s)"
    by (simp add: changeThreshold_def)
  with p b onChange_within_bounds(4-6) [OF assms, of ?k]
  show "\<exists>k. parseInt (targetValue 2 (totalShares (config s)) raw') = Some k
            \<and> 2 \<le> k \<and> k \<le> totalShares (config s)
            \<and> changeThreshold raw' s = Some (onChangeThreshold k s)
            \<and> configInvariant (config (onChangeThreshold k s))
            \<and> threshold (config (onChangeThreshold k s)) = k
            \<and> totalShares (config (onChangeThreshold k s)) = totalShares (config s)"
    by (intro exI [of _ ?k]) simp
qed

lemma floor_examples: "\<lfloor>1 / 2 :: rat\<rfloor> = 0" "\<lfloor>7 / 2 :: rat\<rfloor> = 3"
  by (rule floor_unique; simp)+

lemma slider_examples:
  "parseInt (targetValue MIN_SHARES MAX_SHARES (Some 2)) = Some 2"
  "parseInt (targetValue 2 (totalShares (config state0)) (Some 9)) = Some 5"
  by (simp_all add: parseInt_numberToString targetValue_def rangeValue_def MIN_SHARES_def
      MAX_SHARES_def state0_def DEFAULT_CONFIG_def floor_examples)

theorem config_invariant_preserved_witness:
  "configInvariant (config state0)
   \<and> changeTotalShares (Some 2) state0 = Some (onChangeTotalShares 2 state0)
   \<and> configInvariant (config (onChangeTotalShares 2 state0))
   \<and> threshold (config state0) = 3
   \<and> threshold (config (onChangeTotalShares 2 state0)) = 2
   \<and> changeThreshold (Some 9) state0 = Some (onChangeThreshold 5 state0)
   \<and> configInvariant (config (onChangeThreshold 5 state0))
   \<and> threshold (config (onChangeThreshold 5 state0)) = 5"
proof -
  have inv: "configInvariant (config state0)"
    by (simp add: state0_def DEFAULT_CONFIG_invariant)
  have t: "threshold (config state0) = 3"
    by (simp add: state0_def DEFAULT_CONFIG_def)
  from config_invariant_preserved [OF inv, of "Some 2" "Some 9"] inv t show ?thesis
    by (auto simp: slider_examples)
qed

section \<open>The recovery flow rejects too few shares\<close>

text \<open>
  Claim C5.  When fewer non-empty share texts than the threshold are supplied,
  \<open>processRecovery\<close> (in both copies of the component) makes no call into the crypto
  service, whatever the platform is, ends with a validation message in
  \<open>recoveryError\<close>, and leaves the stored encrypted file, the recovered-file URL and
  the configuration as they were.
\<close>

theorem processRecovery_rejects_insufficient_shares:
  assumes "int (length (sharesListOf s)) < threshold (config s)"
  shows "rejectedUnchanged s (processRecovery plat s)
       \<and> rejectedUnchanged s (processRecovery2 plat s)
       \<and> fst (processRecovery plat s) = fst (processRecovery plat' s)
       \<and> fst (processRecovery2 plat s) = fst (processRecovery2 plat' s)"
  using assms
  by (auto simp: rejectedUnchanged_def processRecovery_def processRecovery2_def addLog_def Let_def
        split: option.splits)

lemma sharesListOf_state1: "sharesListOf state1 = [\<lparr>share_id = 0, data = ''1-5''\<rparr>]"
  by (simp add: sharesListOf_def state1_def state0_def trim_def trimEnd_def isWhiteSpace_def)

theorem processRecovery_rejects_insufficient_shares_witness:
  "int (length (sharesListOf state1)) < threshold (config state1)
   \<and> rejectedUnchanged state1 (processRecovery plat0 state1)
   \<and> rejectedUnchanged state1 (processRecovery2 plat0 state1)
   \<and> encryptedFile (fst (processRecovery2 plat0 state1)) = Some file1"
proof -
  have few: "int (length (sharesListOf state1)) < threshold (config state1)"
    by (simp add: sharesListOf_state1) (simp add: state1_def state0_def DEFAULT_CONFIG_def)
  have "encryptedFile state1 = Some file1"
    by (simp add: state1_def)
  with processRecovery_rejects_insufficient_shares [OF few, of plat0 plat0] few show ?thesis
    by (simp add: rejectedUnchanged_def)
qed

section \<open>Parsing big integers and shares\<close>

lemma PRIME_MODULUS_pos: "0 < PRIME_MODULUS"
  by (simp add: PRIME_MODULUS_def)

lemma hexDigit_not_space: "isHexDigit c \<Longrightarrow> \<not> isWhiteSpace c"
  by (auto simp: isHexDigit_def isWhiteSpace_def Let_def)

lemma trimEnd_append_spaces:
  "list_all isWhiteSpace ws \<Longrightarrow> trimEnd (ds @ ws) = trimEnd ds"
  by (induction ws rule: rev_induct) (auto simp: trimEnd_def)

lemma trimEnd_no_space: "s = [] \<or> \<not> isWhiteSpace (last s) \<Longrightarrow> trimEnd s = s"
  by (cases s rule: rev_cases) (auto simp: trimEnd_def)

lemma trimEnd_hex: "list_all isHexDigit ds \<Longrightarrow> trimEnd ds = ds"
  by (rule trimEnd_no_space) (cases ds rule: rev_cases; auto simp: hexDigit_not_space)

lemma trimEnd_decomp: "\<exists>ws. s = trimEnd s @ ws \<and> list_all isWhiteSpace ws"
proof -
  have "rev s = takeWhile isWhiteSpace (rev s) @ dropWhile isWhiteSpace (rev s)"
    by simp
  then have "s = rev (dropWhile isWhiteSpace (rev s)) @ rev (takeWhile isWhiteSpace (rev s))"
    by (metis rev_append rev_rev_ident)
  moreover have "list_all isWhiteSpace (rev (takeWhile isWhiteSpace (rev s)))"
    by (simp add: list_all_iff) (meson set_takeWhileD)
  ultimately show ?thesis
    unfolding trimEnd_def by blast
qed


lemma spaces_no_hex_prefix:
  "list_all isWhiteSpace ws \<Longrightarrow> takeWhile isHexDigit ws = [] \<and> dropWhile isHexDigit ws = ws"
  by (cases ws) (auto simp: hexDigit_not_space)

lemma BigInt_0x_hexLiteral:
  assumes "BigInt_0x h = Inr v"
  shows "hexLiteral h"
proof -
  obtain ws where h: "h = trimEnd h @ ws" and ws: "list_all isWhiteSpace ws"
    using trimEnd_decomp by blast
  from assms have body: "trimEnd h \<noteq> []" "list_all isHexDigit (trimEnd h)"
    by (auto simp: BigInt_0x_def Let_def split: if_splits)
  have "takeWhile isHexDigit (trimEnd h @ ws) = trimEnd h"
    using body ws by (simp add: takeWhile_append2 list_all_iff spaces_no_hex_prefix)
  moreover have "dropWhile isHexDigit (trimEnd h @ ws) = ws"
    using body ws by (simp add: dropWhile_append2 list_all_iff spaces_no_hex_prefix)
  ultimately show ?thesis
    using h body ws unfolding hexLiteral_def by metis
qed

lemma BigInt_0x_error: "BigInt_0x h = Inl e \<Longrightarrow> e = SyntaxError"
  by (auto simp: BigInt_0x_def Let_def split: if_splits)

lemma BigInt_0x_not_hexLiteral: "\<not> hexLiteral h \<Longrightarrow> BigInt_0x h = Inl SyntaxError"
  using BigInt_0x_hexLiteral BigInt_0x_error by (cases "BigInt_0x h") auto

lemma parsePoint_error: "parsePoint s = Inl e \<Longrightarrow> e = SyntaxError"
  by (auto simp: parsePoint_def Let_def dest: BigInt_0x_error split: sum.splits)

lemma split_not_Nil: "split c s \<noteq> []"
  by (induction s) (auto split: list.splits)

lemma parsePoint_parsable:
  assumes "parsePoint s = Inr p"
  shows "parsableShareText (data s)"
proof -
  obtain xHex rest where parts: "split CHR ''-'' (data s) = xHex # rest"
    using split_not_Nil by (cases "split CHR ''-'' (data s)") auto
  show ?thesis
  proof (cases rest)
    case Nil
    have "BigInt_0x ''undefined'' = Inl SyntaxError"
      by (rule BigInt_0x_not_hexLiteral) (simp add: hexLiteral_def isHexDigit_def)
    with assms parts Nil show ?thesis
      by (simp add: parsePoint_def split: sum.splits)
  next
    case (Cons yHex more)
    with assms parts show ?thesis
      by (auto simp: parsePoint_def parsableShareText_def dest: BigInt_0x_hexLiteral
          split: sum.splits)
  qed
qed

lemma mapE_error: "mapE f as = Inl e \<Longrightarrow> \<exists>a \<in> set as. f a = Inl e"
  by (induction as arbitrary: e) (auto split: sum.splits)

lemma mapE_Inr_all: "mapE f as = Inr bs \<Longrightarrow> a \<in> set as \<Longrightarrow> \<exists>b. f a = Inr b"
  by (induction as arbitrary: bs) (auto split: sum.splits)

section \<open>Hexadecimal text and polynomial evaluation\<close>

lemma hexDigit_props:
  assumes "d < 16"
  shows "isHexDigit (hexDigit d)" and "hexDigitValue (hexDigit d) = d"
    and "isLowerHexDigit (hexDigit d)"
proof -
  have oc: "(of_char (hexDigit d) :: nat) = (if d < 10 then 48 + d else 87 + d)"
    using assms by (simp add: hexDigit_def)
  show "isHexDigit (hexDigit d)"
    using assms by (auto simp: isHexDigit_def oc Let_def)
  show "hexDigitValue (hexDigit d) = d"
    using assms by (auto simp: hexDigitValue_def oc Let_def)
  show "isLowerHexDigit (hexDigit d)"
    using assms by (auto simp: isLowerHexDigit_def oc Let_def)
qed

lemma lowerHex_isHexDigit: "isLowerHexDigit c \<Longrightarrow> isHexDigit c"
  by (auto simp: isLowerHexDigit_def isHexDigit_def Let_def)

lemma hexValue_snoc: "hexValue (s @ [c]) = 16 * hexValue s + hexDigitValue c"
  by (simp add: hexValue_def)

lemma hexDigits_lower: "list_all isLowerHexDigit (hexDigits n)"
  by (induction n rule: hexDigits.induct) (subst hexDigits.simps, auto simp: hexDigit_props)

lemma hexDigits_not_Nil: "hexDigits n \<noteq> []"
  by (subst hexDigits.simps) simp

lemma hexValue_hexDigits: "hexValue (hexDigits n) = n"
proof (induction n rule: hexDigits.induct)
  case (1 n)
  show ?case
  proof (cases "n < 16")
    case True
    then show ?thesis
      by (subst hexDigits.simps) (simp add: hexValue_def hexDigit_props)
  next
    case False
    with 1 show ?thesis
      by (subst hexDigits.simps) (simp add: hexValue_snoc hexDigit_props)
  qed
qed

lemma hexDigits_isHexDigit: "list_all isHexDigit (hexDigits n)"
  using hexDigits_lower [of n] lowerHex_isHexDigit by (auto simp: list_all_iff)

lemma isHexDigit_not_dash: "isHexDigit c \<Longrightarrow> c \<noteq> CHR ''-''"
  by (auto simp: isHexDigit_def)

lemma BigInt_0x_digits:
  "ds \<noteq> [] \<Longrightarrow> list_all isHexDigit ds \<Longrightarrow> BigInt_0x ds = Inr (int (hexValue ds))"
  by (simp add: BigInt_0x_def trimEnd_hex)

lemma BigInt_0x_hexDigits: "BigInt_0x (hexDigits n) = Inr (int n)"
  by (simp add: BigInt_0x_digits hexDigits_not_Nil hexDigits_isHexDigit hexValue_hexDigits)

lemma BigInt_0x_toString16: "0 \<le> v \<Longrightarrow> BigInt_0x (toString16 v) = Inr v"
  by (simp add: toString16_def BigInt_0x_hexDigits)

lemma BigInt_0x_nonneg: "BigInt_0x h = Inr v \<Longrightarrow> 0 \<le> v"
  by (auto simp: BigInt_0x_def Let_def split: if_splits)

lemma split_no_sep: "c \<notin> set s \<Longrightarrow> split c s = [s]"
  by (induction s) auto

lemma split_at_sep: "c \<notin> set a \<Longrightarrow> split c (a @ c # b) = a # split c b"
  by (induction a) auto

lemma smod_nonneg: "0 \<le> a \<Longrightarrow> 0 < m \<Longrightarrow> a smod m = a mod (m::int)"
  by (simp add: signed_modulo_int_def sgn_if)

lemma sdiv_nonneg: "0 \<le> a \<Longrightarrow> 0 < m \<Longrightarrow> a sdiv m = a div (m::int)"
  by (simp add: signed_divide_int_def sgn_if)

lemma polyValue_Nil: "polyValue [] x = 0"
  by (simp add: polyValue_def)

lemma polyValue_Cons: "polyValue (c # cs) x = c + x * polyValue cs x"
proof -
  have "(\<Sum>i<Suc (length cs). (c # cs) ! i * x ^ i) = c + (\<Sum>i<length cs. cs ! i * x ^ Suc i)"
    by (simp only: sum.lessThan_Suc_shift length_Cons) simp
  also have "(\<Sum>i<length cs. cs ! i * x ^ Suc i) = x * (\<Sum>i<length cs. cs ! i * x ^ i)"
    by (simp add: sum_distrib_left mult_ac)
  finally show ?thesis
    by (simp add: polyValue_def)
qed

lemma polyValue_nonneg: "0 \<le> x \<Longrightarrow> \<forall>c \<in> set cs. 0 \<le> c \<Longrightarrow> 0 \<le> polyValue cs x"
  by (induction cs) (auto simp: polyValue_Nil polyValue_Cons)

lemma evalPoly_loop_eq:
  assumes "0 \<le> x" and "\<forall>c \<in> set coeffs. 0 \<le> c"
    and "0 \<le> result" and "result < PRIME_MODULUS" and "0 \<le> powerOfX"
  shows "evalPoly_loop coeffs x result powerOfX
         = (result + powerOfX * polyValue coeffs x) mod PRIME_MODULUS"
  using assms
proof (induction coeffs arbitrary: result powerOfX)
  case Nil
  then show ?case by (simp add: polyValue_Nil)
next
  case (Cons c cs)
  have r': "(result + c * powerOfX) smod PRIME_MODULUS = (result + c * powerOfX) mod PRIME_MODULUS"
    using Cons.prems by (intro smod_nonneg) (auto simp: PRIME_MODULUS_pos)
  have p': "(powerOfX * x) smod PRIME_MODULUS = (powerOfX * x) mod PRIME_MODULUS"
    using Cons.prems by (intro smod_nonneg) (auto simp: PRIME_MODULUS_pos)
  have "evalPoly_loop (c # cs) x result powerOfX
        = ((result + c * powerOfX) mod PRIME_MODULUS
            + (powerOfX * x) mod PRIME_MODULUS * polyValue cs x) mod PRIME_MODULUS"
    using Cons.prems
    by (simp add: r' p' Cons.IH PRIME_MODULUS_pos)
  also have "\<dots> = (result + c * powerOfX + powerOfX * x * polyValue cs x) mod PRIME_MODULUS"
    by (intro mod_add_cong mod_mult_cong) simp_all
  also have "result + c * powerOfX + powerOfX * x * polyValue cs x
             = result + powerOfX * polyValue (c # cs) x"
    by (simp add: polyValue_Cons algebra_simps)
  finally show ?case .
qed

lemma evalPoly_eq:
  "0 \<le> x \<Longrightarrow> \<forall>c \<in> set coeffs. 0 \<le> c \<Longrightarrow> evalPoly coeffs x = polyValue coeffs x mod PRIME_MODULUS"
  by (simp add: evalPoly_def evalPoly_loop_eq PRIME_MODULUS_pos)

section \<open>The shares that splitSecret returns\<close>

lemma padStart2_hex: "list_all isLowerHexDigit s \<Longrightarrow> list_all isLowerHexDigit (padStart2 s)"
  by (auto simp: padStart2_def list_all_iff isLowerHexDigit_def)

lemma bufferToHex_lower: "list_all isLowerHexDigit (bufferToHex buffer)"
  by (induction buffer) (auto simp: bufferToHex_def padStart2_hex hexDigits_lower)

lemma bufferToHex_not_Nil: "buffer \<noteq> [] \<Longrightarrow> bufferToHex buffer \<noteq> []"
  by (cases buffer) (auto simp: bufferToHex_def padStart2_def hexDigits_not_Nil)

lemma randomBigInt_value:
  "\<exists>r. randomBigInt fill = Inr r \<and> 0 \<le> r \<and> r < PRIME_MODULUS"
proof -
  let ?hex = "bufferToHex (map fill [0..<66])"
  have "?hex \<noteq> []"
    by (rule bufferToHex_not_Nil) simp
  moreover have "list_all isHexDigit ?hex"
    using bufferToHex_lower [of "map fill [0..<66]"] lowerHex_isHexDigit
    by (auto simp: list_all_iff)
  ultimately have "BigInt_0x ?hex = Inr (int (hexValue ?hex))"
    by (rule BigInt_0x_digits)
  then show ?thesis
    by (simp add: randomBigInt_def smod_nonneg PRIME_MODULUS_pos)
qed

lemma mapE_success:
  assumes "\<forall>a \<in> set as. \<exists>b. f a = Inr b \<and> Q b"
  shows "\<exists>bs. mapE f as = Inr bs \<and> length bs = length as \<and> (\<forall>b \<in> set bs. Q b)"
  using assms by (induction as) auto

lemma mapE_Inr_map: "mapE f as = Inr bs \<Longrightarrow> map f as = map Inr bs"
  by (induction as arbitrary: bs) (auto split: sum.splits)

lemma splitSecret_form:
  assumes "BigInt_0x secretHex = Inr secret"
  shows "\<exists>randoms. length randoms = nat (k - 1)
          \<and> (\<forall>c \<in> set randoms. 0 \<le> c \<and> c < PRIME_MODULUS)
          \<and> mapE (\<lambda>i. randomBigInt (rng (nat (i - 1)))) [1..k - 1] = Inr randoms
          \<and> splitSecret rng secretHex n k
              = Inr (map (\<lambda>x. \<lparr>share_id = x,
                               data = toString16 x @ ''-''
                                      @ toString16 (polyValue (secret # randoms) x mod PRIME_MODULUS)\<rparr>) [1..n])"
proof -
  obtain randoms where r: "mapE (\<lambda>i. randomBigInt (rng (nat (i - 1)))) [1..k - 1] = Inr randoms"
    and len: "length randoms = length [1..k - 1]"
    and range: "\<forall>r \<in> set randoms. 0 \<le> r \<and> r < PRIME_MODULUS"
    using mapE_success [of "[1..k - 1]" "\<lambda>i. randomBigInt (rng (nat (i - 1)))"
        "\<lambda>r. 0 \<le> r \<and> r < PRIME_MODULUS"] randomBigInt_value
    by blast
  let ?coeffs = "secret # randoms"
  have nonneg: "\<forall>c \<in> set ?coeffs. 0 \<le> c"
    using range BigInt_0x_nonneg [OF assms(1)] by auto
  have ev: "evalPoly ?coeffs x = polyValue ?coeffs x mod PRIME_MODULUS" if "x \<in> set [1..n]" for x
    using that nonneg by (intro evalPoly_eq) auto
  have "splitSecret rng secretHex n k
        = Inr (map (\<lambda>x. \<lparr>share_id = x,
                         data = toString16 x @ ''-'' @ toString16 (evalPoly ?coeffs x)\<rparr>) [1..n])"
    by (simp add: splitSecret_def assms(1) r)
  also have "map (\<lambda>x. \<lparr>share_id = x, data = toString16 x @ ''-'' @ toString16 (evalPoly ?coeffs x)\<rparr>) [1..n]
      = map (\<lambda>x. \<lparr>share_id = x, data = toString16 x @ ''-''
                    @ toString16 (polyValue ?coeffs x mod PRIME_MODULUS)\<rparr>) [1..n]"
    by (rule map_cong) (simp_all add: ev del: set_upto)
  finally have split: "splitSecret rng secretHex n k
        = Inr (map (\<lambda>x. \<lparr>share_id = x, data = toString16 x @ ''-''
                    @ toString16 (polyValue ?coeffs x mod PRIME_MODULUS)\<rparr>) [1..n])" .
  have "length randoms = nat (k - 1)"
    using len by simp
  with split range r show ?thesis
    by blast
qed

lemma toString16_lower: "0 \<le> v \<Longrightarrow> list_all isLowerHexDigit (toString16 v)"
  by (simp add: toString16_def hexDigits_lower)


lemma BigInt_0x_2a: "BigInt_0x ''2a'' = Inr 42"
  by (simp add: BigInt_0x_def trimEnd_def isWhiteSpace_def isHexDigit_def hexValue_def
      hexDigitValue_def)


section \<open>The encoding utilities are inverse pairs\<close>

lemma hexDigit_0: "hexDigit 0 = CHR ''0''"
  by (rule of_char_eqI [where ?'a = nat]) (simp add: hexDigit_def)

lemma byte_hex_pair:
  "padStart2 (hexDigits (unat (b::byte))) = [hexDigit (unat b div 16), hexDigit (unat b mod 16)]"
proof -
  have lt: "unat b < 256"
    using unsigned_less [of b, where ?'a = nat] by simp
  show ?thesis
  proof (cases "unat b < 16")
    case True
    then show ?thesis
      by (subst hexDigits.simps) (simp add: padStart2_def hexDigit_0)
  next
    case False
    moreover have "unat b div 16 < 16"
      using lt by simp
    ultimately show ?thesis
      by (subst hexDigits.simps, subst hexDigits.simps) (simp add: padStart2_def)
  qed
qed

lemma bufferToHex_Cons:
  "bufferToHex (b # bs) = hexDigit (unat b div 16) # hexDigit (unat b mod 16) # bufferToHex bs"
  by (simp add: bufferToHex_def byte_hex_pair)

lemma bufferToHex_Nil: "bufferToHex [] = []"
  by (simp add: bufferToHex_def)

lemma length_bufferToHex: "length (bufferToHex buffer) = 2 * length buffer"
  by (induction buffer) (simp_all add: bufferToHex_Cons bufferToHex_Nil)

lemma drop_bufferToHex: "drop (2 * j) (bufferToHex buffer) = bufferToHex (drop j buffer)"
proof (induction buffer arbitrary: j)
  case Nil
  then show ?case by (simp add: bufferToHex_Nil)
next
  case (Cons b bs)
  then show ?case
    by (cases j) (simp_all add: bufferToHex_Cons)
qed

lemma parseInt16_pair:
  assumes "isHexDigit c1" and "isHexDigit c2"
  shows "parseInt16 [c1, c2] = Some (int (16 * hexDigitValue c1 + hexDigitValue c2))"
proof -
  have "\<not> isWhiteSpace c1"
    using assms(1) by (rule hexDigit_not_space)
  moreover have "c1 \<noteq> CHR ''-''" "c1 \<noteq> CHR ''+''" "c2 \<noteq> CHR ''x''" "c2 \<noteq> CHR ''X''"
    using assms by (auto simp: isHexDigit_def)
  ultimately show ?thesis
    using assms by (simp add: parseInt16_def hexValue_def)
qed

lemma toUint8_pair:
  "toUint8 (parseInt16 [hexDigit (unat (b::byte) div 16), hexDigit (unat b mod 16)]) = b"
proof -
  have lt: "unat b div 16 < 16" "unat b mod 16 < 16"
    using unsigned_less [of b, where ?'a = nat] by simp_all
  have "parseInt16 [hexDigit (unat b div 16), hexDigit (unat b mod 16)]
        = Some (int (16 * (unat b div 16) + unat b mod 16))"
    using lt by (simp add: parseInt16_pair hexDigit_props)
  also have "16 * (unat b div 16) + unat b mod 16 = unat b"
    by simp
  finally show ?thesis
    by (simp add: toUint8_def)
qed

lemma hexToBuffer_loop_done:
  assumes "j \<le> length buffer"
  shows "hexToBuffer_loop (bufferToHex buffer) (2 * j)
           (take j buffer @ replicate (length buffer - j) 0) = buffer"
  using assms
proof (induction "length buffer - j" arbitrary: j)
  case 0
  then show ?case
    by (subst hexToBuffer_loop.simps) (simp add: length_bufferToHex)
next
  case (Suc d)
  then have j: "j < length buffer"
    by simp
  then obtain b rest where dr: "drop j buffer = b # rest"
    by (cases "drop j buffer") auto
  then have bj: "buffer ! j = b"
    using j by (metis nth_via_drop)
  have pair: "take 2 (drop (2 * j) (bufferToHex buffer))
              = [hexDigit (unat b div 16), hexDigit (unat b mod 16)]"
    by (simp add: drop_bufferToHex dr bufferToHex_Cons)
  have upd: "(take j buffer @ replicate (length buffer - j) 0)[j := b]
             = take (Suc j) buffer @ replicate (length buffer - Suc j) 0"
  proof -
    have "replicate (length buffer - j) (0::byte) = 0 # replicate (length buffer - Suc j) 0"
      using j by (metis Suc_diff_Suc replicate_Suc)
    then show ?thesis
      using j bj by (simp add: list_update_append take_Suc_conv_app_nth)
  qed
  have "hexToBuffer_loop (bufferToHex buffer) (2 * j)
           (take j buffer @ replicate (length buffer - j) 0)
        = hexToBuffer_loop (bufferToHex buffer) (2 * Suc j)
           (take (Suc j) buffer @ replicate (length buffer - Suc j) 0)"
    using j by (subst hexToBuffer_loop.simps) (simp add: length_bufferToHex pair toUint8_pair upd)
  also have "\<dots> = buffer"
    using Suc.hyps(2) j by (intro Suc.hyps(1)) simp_all
  finally show ?case .
qed

lemma hexToBuffer_bufferToHex: "hexToBuffer (bufferToHex buffer) = buffer"
  using hexToBuffer_loop_done [of 0 buffer]
  by (simp add: hexToBuffer_def length_bufferToHex)


lemma indexOf_nth: "distinct xs \<Longrightarrow> i < length xs \<Longrightarrow> indexOf (xs ! i) xs = Some i"
proof (induction xs arbitrary: i)
  case Nil
  then show ?case by simp
next
  case (Cons a xs)
  then show ?case
    by (cases i) auto
qed

lemma b64chars_distinct: "distinct b64chars"
  by (simp add: b64chars_def)

lemma b64chars_length: "length b64chars = 64"
  by (simp add: b64chars_def)

lemma b64chars_plain: "c \<in> set b64chars \<Longrightarrow> c \<noteq> CHR ''='' \<and> \<not> isAsciiWhiteSpace c"
  by (auto simp: b64chars_def isAsciiWhiteSpace_def)

lemma encodeSextets_bound:
  "\<forall>b \<in> set bytes. b < 256 \<Longrightarrow> \<forall>v \<in> set (encodeSextets bytes). v < 64"
proof (induction bytes rule: encodeSextets.induct)
  case (1 a b c rest)
  then show ?case by (auto simp: less_mult_imp_div_less)
next
  case (2 a b)
  then show ?case by auto
next
  case (3 a)
  then show ?case by auto
next
  case 4
  then show ?case by simp
qed

lemma encodeSextets_length: "length (encodeSextets bytes) mod 4 \<in> {0, 2, 3}"
  by (induction bytes rule: encodeSextets.induct) simp_all

lemma high_part: "r < m \<Longrightarrow> (q * m + r) div m = (q::nat)"
  by simp
lemma low_part: "r < m \<Longrightarrow> (q * m + r) mod m = (r::nat)"
  by simp
lemma d1:
  assumes "b < (256::nat)"
  shows "a div 4 * 4 + (a mod 4 * 16 + b div 16) div 16 = a"
proof -
  have "b div 16 < 16" using assms by simp
  then have "(a mod 4 * 16 + b div 16) div 16 = a mod 4"
    by (rule high_part)
  then show ?thesis by simp
qed
lemma d2:
  assumes "b < (256::nat)" and "c < (256::nat)"
  shows "(a mod 4 * 16 + b div 16) mod 16 * 16 + (b mod 16 * 4 + c div 64) div 4 = b"
proof -
  have "b div 16 < 16" using assms by simp
  then have "(a mod 4 * 16 + b div 16) mod 16 = b div 16"
    by (rule low_part)
  moreover have "c div 64 < 4" using assms by simp
  then have "(b mod 16 * 4 + c div 64) div 4 = b mod 16"
    by (rule high_part)
  ultimately show ?thesis by simp
qed
lemma d3:
  assumes "c < (256::nat)"
  shows "(b mod 16 * 4 + c div 64) mod 4 * 64 + c mod 64 = c"
proof -
  have "c div 64 < 4" using assms by simp
  then have "(b mod 16 * 4 + c div 64) mod 4 = c div 64"
    by (rule low_part)
  then show ?thesis by simp
qed
lemma d4:
  assumes "b < (256::nat)"
  shows "(a mod 4 * 16 + b div 16) mod 16 * 16 + (b mod 16 * 4) div 4 = b"
proof -
  have "b div 16 < 16" using assms by simp
  then have "(a mod 4 * 16 + b div 16) mod 16 = b div 16"
    by (rule low_part)
  then show ?thesis by simp
qed
lemma d5: "a div 4 * 4 + (a mod 4 * 16) div 16 = (a::nat)"
  by simp
lemma decodeSextets_encodeSextets:
  "\<forall>b \<in> set bytes. b < 256 \<Longrightarrow> decodeSextets (encodeSextets bytes) = bytes"
proof (induction bytes rule: encodeSextets.induct)
  case (1 a b c rest)
  then have "b < 256" "c < 256" by simp_all
  with 1 show ?case
    by (simp add: d1 d2 d3)
next
  case (2 a b)
  then have "b < 256" by simp
  then show ?case
    by (simp add: d1 d4)
next
  case (3 a)
  show ?case
    by (simp add: d5)
next
  case 4
  then show ?case by simp
qed

lemma stripPadding_body:
  assumes "\<forall>c \<in> set body. c \<noteq> CHR ''=''" and "length body mod 4 \<in> {0, 2, 3}"
  shows "stripPadding (body @ replicate ((4 - length body mod 4) mod 4) CHR ''='') = body"
proof -
  have last_body: "body \<noteq> [] \<Longrightarrow> last body \<noteq> CHR ''=''"
    using assms(1) last_in_set by blast
  consider "length body mod 4 = 0" | "length body mod 4 = 2" | "length body mod 4 = 3"
    using assms(2) by auto
  then show ?thesis
  proof cases
    case 1
    then show ?thesis
      using last_body by (auto simp: stripPadding_def)
  next
    case 2
    then have ne: "body \<noteq> []" by auto
    have len: "length (body @ ''=='') mod 4 = 0"
      using 2 by (simp add: mod_Suc)
    have rep: "replicate ((4 - length body mod 4) mod 4) CHR ''='' = ''==''"
      using 2 by (simp add: numeral_2_eq_2)
    show ?thesis
      unfolding rep stripPadding_def using len by (simp add: butlast_append)
  next
    case 3
    then have ne: "body \<noteq> []" by auto
    have len: "length (body @ ''='') mod 4 = 0"
      using 3 by (simp add: mod_Suc)
    have rep: "replicate ((4 - length body mod 4) mod 4) CHR ''='' = ''=''"
      using 3 by simp
    show ?thesis
      unfolding rep stripPadding_def using len ne last_body by (simp add: butlast_append)
  qed
qed

lemma atob_btoa: "atob (btoa s) = Inr s"
proof -
  let ?bytes = "map of_char s :: nat list"
  let ?sext = "encodeSextets ?bytes"
  let ?body = "map (\<lambda>i. b64chars ! i) ?sext"
  let ?pad = "replicate ((4 - length ?body mod 4) mod 4) CHR ''=''"
  have bytes: "\<forall>b \<in> set ?bytes. b < 256"
    by auto
  have sext: "\<forall>v \<in> set ?sext. v < 64"
    using bytes by (rule encodeSextets_bound)
  have body_in: "\<forall>c \<in> set ?body. c \<in> set b64chars"
    using sext by (auto simp: b64chars_length)
  have len: "length ?body mod 4 \<in> {0, 2, 3}"
    using encodeSextets_length [of ?bytes] by simp
  have "filter (\<lambda>c. \<not> isAsciiWhiteSpace c) (?body @ ?pad) = ?body @ ?pad"
    using body_in b64chars_plain by (auto simp: filter_id_conv isAsciiWhiteSpace_def)
  moreover have "stripPadding (?body @ ?pad) = ?body"
    using body_in b64chars_plain len by (intro stripPadding_body) auto
  ultimately have d: "stripPadding (filter (\<lambda>c. \<not> isAsciiWhiteSpace c) (btoa s)) = ?body"
    by (simp add: btoa_def Let_def)
  have idx: "map (\<lambda>c. the (indexOf c b64chars)) ?body = ?sext"
    using sext by (auto simp: map_idI indexOf_nth b64chars_distinct b64chars_length comp_def)
  have "length ?body mod 4 \<noteq> 1"
    using len by auto
  moreover have "list_all (\<lambda>c. c \<in> set b64chars) ?body"
    using body_in by (simp add: list_all_iff)
  ultimately have "atob (btoa s) = Inr (map char_of (decodeSextets ?sext))"
    unfolding atob_def d Let_def idx by simp
  also have "decodeSextets ?sext = ?bytes"
    using bytes by (rule decodeSextets_encodeSextets)
  finally show ?thesis
    by (simp add: comp_def)
qed

lemma binary_string_of_buffer:
  "foldl (\<lambda>binary b. binary @ [char_of (unat b)]) acc buffer = acc @ map (\<lambda>b. char_of (unat b)) buffer"
  by (induction buffer arbitrary: acc) simp_all

lemma base64ToBuffer_bufferToBase64: "base64ToBuffer (bufferToBase64 (buffer :: byte list)) = Inr buffer"
proof -
  have "of_char (char_of (unat b)) = unat b" for b :: byte
    using unsigned_less [of b, where ?'a = nat] by simp
  then have "map (\<lambda>c. word_of_nat (of_char c)) (map (\<lambda>b. char_of (unat b)) buffer) = buffer"
    by (simp add: comp_def map_idI)
  then show ?thesis
    by (simp add: base64ToBuffer_def bufferToBase64_def binary_string_of_buffer atob_btoa)
qed

text \<open>
  Claim C10.  For every byte buffer, \<open>hexToBuffer\<close> undoes \<open>bufferToHex\<close>, whose
  output has exactly two lower-case hexadecimal digits per byte, and \<open>base64ToBuffer\<close>
  undoes \<open>bufferToBase64\<close>.
\<close>

theorem encoding_round_trips:
  "hexToBuffer (bufferToHex buffer) = buffer
   \<and> length (bufferToHex buffer) = 2 * length buffer
   \<and> list_all isLowerHexDigit (bufferToHex buffer)
   \<and> base64ToBuffer (bufferToBase64 buffer) = Inr buffer"
  by (simp add: hexToBuffer_bufferToHex length_bufferToHex bufferToHex_lower
      base64ToBuffer_bufferToBase64)

section \<open>The modular inverse\<close>

lemma PRIME_MODULUS_gt1: "1 < PRIME_MODULUS"
  by (simp add: PRIME_MODULUS_def)

lemma modInverse_loop_error: "modInverse_loop a m x y = Inl e \<Longrightarrow> e = RangeError"
proof (induction a m x y rule: modInverse_loop.induct)
  case (1 a m x y)
  from "1.prems" show ?case
    by (subst (asm) modInverse_loop.simps) (auto split: if_splits intro: "1.IH")
qed

lemma modInverse_error: "modInverse a m = Inl e \<Longrightarrow> e = RangeError"
  by (auto simp: modInverse_def split: if_splits sum.splits dest: modInverse_loop_error)

lemma modInverse_zero: "m \<noteq> 1 \<Longrightarrow> modInverse 0 m = Inr 1"
  by (simp add: modInverse_def modInverse_loop.simps)

lemma modInverse_loop_correct:
  assumes "0 < a" and "0 \<le> m" and "coprime a m"
    and "m0 dvd x * a0 - a" and "m0 dvd y * a0 - m"
  shows "\<exists>r. modInverse_loop a m x y = Inr r \<and> m0 dvd r * a0 - 1"
  using assms
proof (induction a m x y rule: modInverse_loop.induct)
  case (1 a m x y)
  show ?case
  proof (cases "1 < a")
    case False
    with "1.prems" have "a = 1" by simp
    with "1.prems" show ?thesis
      by (subst modInverse_loop.simps) simp
  next
    case True
    have m_pos: "0 < m"
    proof (rule ccontr)
      assume "\<not> 0 < m"
      with "1.prems" have "m = 0" by simp
      with "1.prems" True show False by simp
    qed
    have sm: "a smod m = a mod m" and sd: "a sdiv m = a div m"
      using True m_pos by (simp_all add: smod_nonneg sdiv_nonneg)
    have "m0 dvd (x * a0 - a) - (a div m) * (y * a0 - m)"
      using "1.prems"(4,5) by (simp add: dvd_diff)
    also have "(x * a0 - a) - (a div m) * (y * a0 - m) = (x - a div m * y) * a0 - a mod m"
      by (simp add: algebra_simps minus_div_mult_eq_mod [symmetric])
    finally have step: "m0 dvd (x - a div m * y) * a0 - a mod m" .
    have "\<exists>r. modInverse_loop m (a smod m) y (x - a sdiv m * y) = Inr r \<and> m0 dvd r * a0 - 1"
      using True m_pos "1.prems" step
      by (intro "1.IH") (simp_all add: sm sd coprime_commute)
    with True m_pos show ?thesis
      by (subst modInverse_loop.simps) simp
  qed
qed

lemma modInverse_correct:
  assumes "0 < a" and "1 < m" and "coprime a m"
  shows "\<exists>r. modInverse a m = Inr r \<and> (a * r) mod m = 1"
proof -
  have "\<exists>r. modInverse_loop a m 1 0 = Inr r \<and> m dvd r * a - 1"
    using assms by (intro modInverse_loop_correct) simp_all
  then obtain r where r: "modInverse_loop a m 1 0 = Inr r" and d: "m dvd r * a - 1"
    by blast
  let ?r = "if r < 0 then r + m else r"
  have "m dvd (r * a - 1) + m * a"
    using d by simp
  then have "m dvd ?r * a - 1"
    using d by (simp add: algebra_simps)
  then have "(?r * a) mod m = 1 mod m"
    by (simp add: mod_eq_dvd_iff)
  then have "(a * ?r) mod m = 1"
    using assms(2) by (simp add: mult.commute)
  moreover have "modInverse a m = Inr ?r"
    using assms(2) r by (simp add: modInverse_def)
  ultimately show ?thesis
    by blast
qed


lemma smod_normalise:
  assumes "0 < (m::int)"
  shows "(if d smod m < 0 then d smod m + m else d smod m) = d mod m"
proof (cases "0 \<le> d")
  case True
  then show ?thesis
    using assms by (simp add: smod_nonneg not_less)
next
  case False
  then have sm: "d smod m = - ((- d) mod m)"
    using assms by (simp add: signed_modulo_int_def sgn_if)
  have dm: "d mod m = (if (- d) mod m = 0 then 0 else m - (- d) mod m)"
    using zmod_zminus1_eq_if [of "- d" m] by simp
  have "0 \<le> (- d) mod m"
    using assms by simp
  then show ?thesis
    unfolding sm dm by auto
qed

lemma basis_fold:
  assumes "\<forall>p \<in> set points. 0 \<le> fst p" and "k \<le> length points"
  shows "fold (basisStep points j xj) [0..<k] (1, 1)
         = ((\<Prod>m \<in> {..<k} - {j}. fst (points ! m)) mod PRIME_MODULUS,
            (\<Prod>m \<in> {..<k} - {j}. (fst (points ! m) - xj) mod PRIME_MODULUS) mod PRIME_MODULUS)"
  using assms(2)
proof (induction k)
  case 0
  then show ?case
    using PRIME_MODULUS_gt1 by simp
next
  case (Suc k)
  let ?N = "\<Prod>m \<in> {..<k} - {j}. fst (points ! m)"
  let ?D = "\<Prod>m \<in> {..<k} - {j}. (fst (points ! m) - xj) mod PRIME_MODULUS"
  have IH: "fold (basisStep points j xj) [0..<k] (1, 1) = (?N mod PRIME_MODULUS, ?D mod PRIME_MODULUS)"
    using Suc by simp
  have "fold (basisStep points j xj) [0..<Suc k] (1, 1)
        = basisStep points j xj k (fold (basisStep points j xj) [0..<k] (1, 1))"
    by simp
  then have step: "fold (basisStep points j xj) [0..<Suc k] (1, 1)
        = basisStep points j xj k (?N mod PRIME_MODULUS, ?D mod PRIME_MODULUS)"
    by (simp only: IH)
  show ?case
  proof (cases "k = j")
    case True
    then have S: "{..<Suc k} - {j} = {..<k} - {j}"
      by auto
    show ?thesis
      unfolding S step using True by (simp add: basisStep_def)
  next
    case False
    then have S: "{..<Suc k} - {j} = insert k ({..<k} - {j})"
      by auto
    have xm: "0 \<le> fst (points ! k)"
      using assms(1) Suc.prems by simp
    have fin: "finite ({..<k} - {j})" "k \<notin> {..<k} - {j}"
      by simp_all
    have num: "(?N mod PRIME_MODULUS * fst (points ! k)) smod PRIME_MODULUS
               = (fst (points ! k) * ?N) mod PRIME_MODULUS"
      using xm PRIME_MODULUS_pos by (simp add: smod_nonneg mod_mult_left_eq mod_mult_right_eq mult.commute)
    have diff: "(if (fst (points ! k) - xj) smod PRIME_MODULUS < 0
                 then (fst (points ! k) - xj) smod PRIME_MODULUS + PRIME_MODULUS
                 else (fst (points ! k) - xj) smod PRIME_MODULUS)
                = (fst (points ! k) - xj) mod PRIME_MODULUS"
      using PRIME_MODULUS_pos by (rule smod_normalise)
    have den: "(?D mod PRIME_MODULUS * ((fst (points ! k) - xj) mod PRIME_MODULUS)) smod PRIME_MODULUS
               = ((fst (points ! k) - xj) mod PRIME_MODULUS * ?D) mod PRIME_MODULUS"
      using PRIME_MODULUS_pos by (simp add: smod_nonneg mod_mult_left_eq mod_mult_right_eq mult.commute)
    have "basisStep points j xj k (?N mod PRIME_MODULUS, ?D mod PRIME_MODULUS)
          = ((fst (points ! k) * ?N) mod PRIME_MODULUS,
             ((fst (points ! k) - xj) mod PRIME_MODULUS * ?D) mod PRIME_MODULUS)"
      using False by (simp only: basisStep_def Let_def prod.case if_False num diff den)
    then show ?thesis
      unfolding S step prod.insert [OF fin] .
  qed
qed

lemma basis_eq:
  assumes "\<forall>p \<in> set points. 0 \<le> fst p"
  shows "basis points j
         = ((\<Prod>m \<in> {..<length points} - {j}. fst (points ! m)) mod PRIME_MODULUS,
            (\<Prod>m \<in> {..<length points} - {j}.
                (fst (points ! m) - fst (points ! j)) mod PRIME_MODULUS) mod PRIME_MODULUS)"
  unfolding basis_def using assms by (intro basis_fold) simp_all

lemma smod_bounds: "0 < (m::int) \<Longrightarrow> - m < a smod m \<and> a smod m < m"
proof -
  assume m: "0 < m"
  have gen: "- m < sgn a * r \<and> sgn a * r < m" if "0 \<le> r" and "r < m" for r
    using that by (auto simp: sgn_if)
  have "0 \<le> \<bar>a\<bar> mod m" "\<bar>a\<bar> mod m < m"
    using m by simp_all
  then have "- m < sgn a * (\<bar>a\<bar> mod m) \<and> sgn a * (\<bar>a\<bar> mod m) < m"
    by (rule gen)
  then show ?thesis
    using m by (simp add: signed_modulo_int_def)
qed

lemma smod_mod: "(a smod m) mod m = a mod (m::int)"
proof -
  have "a = a sdiv m * m + a smod m"
    by (simp add: sdiv_mult_smod_eq)
  then have "a mod m = (a sdiv m * m + a smod m) mod m"
    by simp
  then show ?thesis
    by simp
qed

lemma termAt_error: "termAt points j = Inl e \<Longrightarrow> e = RangeError"
  by (auto simp: termAt_def split: prod.splits sum.splits dest: modInverse_error)

lemma secretStep_termAt:
  "secretStep points j (Inr secret)
   = (case termAt points j of Inl e \<Rightarrow> Inl e
      | Inr t \<Rightarrow> Inr ((secret + t smod PRIME_MODULUS) smod PRIME_MODULUS))"
  by (simp add: secretStep_def termAt_def Let_def split: prod.splits sum.splits)

lemma secretStep_Inl: "secretStep points j (Inl e) = Inl e"
  by (simp add: secretStep_def)

lemma secret_fold_Inl:
  "fold (secretStep points) [0..<k] (Inr 0) = Inl a \<Longrightarrow> a = RangeError"
proof (induction k arbitrary: a)
  case 0
  then show ?case by simp
next
  case (Suc k)
  show ?case
  proof (cases "fold (secretStep points) [0..<k] (Inr 0)")
    case (Inl b)
    with Suc show ?thesis
      by (simp add: secretStep_Inl)
  next
    case (Inr s)
    with Suc.prems show ?thesis
      by (auto simp: secretStep_termAt split: sum.splits dest: termAt_error)
  qed
qed

lemma secret_fold_error:
  assumes "\<exists>j<k. isl (termAt points j)"
  shows "fold (secretStep points) [0..<k] (Inr 0) = Inl RangeError"
  using assms
proof (induction k)
  case 0
  then show ?case by simp
next
  case (Suc k)
  show ?case
  proof (cases "\<exists>j<k. isl (termAt points j)")
    case True
    then show ?thesis
      using Suc.IH by (simp add: secretStep_Inl)
  next
    case False
    with Suc.prems have "isl (termAt points k)"
      using less_Suc_eq by auto
    then obtain e where e: "termAt points k = Inl e"
      by (cases "termAt points k") auto
    then have "e = RangeError"
      by (rule termAt_error)
    with e show ?thesis
      using secret_fold_Inl [of points k]
      by (cases "fold (secretStep points) [0..<k] (Inr 0)")
         (simp_all add: secretStep_termAt secretStep_Inl)
  qed
qed

lemma secret_fold_value:
  assumes "\<forall>j<k. \<not> isl (termAt points j)"
  shows "\<exists>s. fold (secretStep points) [0..<k] (Inr 0) = Inr s
           \<and> - PRIME_MODULUS < s \<and> s < PRIME_MODULUS
           \<and> s mod PRIME_MODULUS = (\<Sum>j<k. projr (termAt points j)) mod PRIME_MODULUS"
  using assms
proof (induction k)
  case 0
  then show ?case
    using PRIME_MODULUS_pos by simp
next
  case (Suc k)
  then obtain s where s: "fold (secretStep points) [0..<k] (Inr 0) = Inr s"
    and sm: "s mod PRIME_MODULUS = (\<Sum>j<k. projr (termAt points j)) mod PRIME_MODULUS"
    by auto
  from Suc.prems obtain t where t: "termAt points k = Inr t"
    by (cases "termAt points k") auto
  let ?s' = "(s + t smod PRIME_MODULUS) smod PRIME_MODULUS"
  have fold: "fold (secretStep points) [0..<Suc k] (Inr 0) = Inr ?s'"
    by (simp add: s secretStep_termAt t)
  have "?s' mod PRIME_MODULUS = (s + t smod PRIME_MODULUS) mod PRIME_MODULUS"
    by (rule smod_mod)
  also have "\<dots> = (s mod PRIME_MODULUS + (t smod PRIME_MODULUS) mod PRIME_MODULUS) mod PRIME_MODULUS"
    by (simp add: mod_add_eq)
  also have "\<dots> = ((\<Sum>j<k. projr (termAt points j)) mod PRIME_MODULUS + t mod PRIME_MODULUS) mod PRIME_MODULUS"
    by (simp only: sm smod_mod)
  also have "\<dots> = ((\<Sum>j<k. projr (termAt points j)) + t) mod PRIME_MODULUS"
    by (simp add: mod_add_eq)
  also have "(\<Sum>j<k. projr (termAt points j)) + t = (\<Sum>j<Suc k. projr (termAt points j))"
    by (simp add: t)
  finally have "?s' mod PRIME_MODULUS = (\<Sum>j<Suc k. projr (termAt points j)) mod PRIME_MODULUS" .
  moreover have "- PRIME_MODULUS < ?s' \<and> ?s' < PRIME_MODULUS"
    using PRIME_MODULUS_pos by (rule smod_bounds)
  ultimately show ?case
    using fold by blast
qed

lemma secret_fold_interpolateAt:
  "(case fold (secretStep points) [0..<length points] (Inr 0) of Inl e \<Rightarrow> Inl e
    | Inr secret \<Rightarrow> Inr (if secret < 0 then secret + PRIME_MODULUS else secret))
   = interpolateAt points"
proof (cases "\<exists>j<length points. isl (termAt points j)")
  case True
  then show ?thesis
    by (simp add: secret_fold_error interpolateAt_def)
next
  case False
  then obtain s where s: "fold (secretStep points) [0..<length points] (Inr 0) = Inr s"
    and lo: "- PRIME_MODULUS < s" and hi: "s < PRIME_MODULUS"
    and sm: "s mod PRIME_MODULUS = (\<Sum>j<length points. projr (termAt points j)) mod PRIME_MODULUS"
    using secret_fold_value [of "length points" points] by auto
  have "(if s < 0 then s + PRIME_MODULUS else s) = s mod PRIME_MODULUS"
  proof (cases "s < 0")
    case True
    then have "(s + PRIME_MODULUS) mod PRIME_MODULUS = s + PRIME_MODULUS"
      using lo by (intro mod_pos_pos_trivial) simp_all
    with True show ?thesis by simp
  next
    case False
    then show ?thesis
      using hi by simp
  qed
  with False s sm show ?thesis
    by (simp add: interpolateAt_def)
qed

lemma reconstructSecret_interpolateAt:
  "reconstructSecret shares
   = (case mapE parsePoint shares of Inl e \<Rightarrow> Inl e
      | Inr points \<Rightarrow>
        (case interpolateAt points of Inl e \<Rightarrow> Inl e
         | Inr v \<Rightarrow> Inr (padEven (toString16 v))))"
proof (cases "mapE parsePoint shares")
  case (Inl e)
  then show ?thesis
    by (simp add: reconstructSecret_def)
next
  case (Inr points)
  show ?thesis
    unfolding reconstructSecret_def Inr sum.case secret_fold_interpolateAt [of points, symmetric]
    by (simp add: Let_def split: sum.splits)
qed

lemma mset_nth_image: "image_mset (nth xs) (mset_set {..<length xs}) = mset xs"
proof -
  have "mset xs = mset (map (nth xs) [0..<length xs])"
    by (simp add: map_nth)
  also have "\<dots> = image_mset (nth xs) (mset_set {0..<length xs})"
    by (simp only: mset_map mset_upt)
  finally show ?thesis
    by (simp add: atLeast0LessThan)
qed

lemma mset_others:
  assumes "j < length xs"
  shows "image_mset (nth xs) (mset_set ({..<length xs} - {j})) = mset xs - {#xs ! j#}"
proof -
  have "{..<length xs} = insert j ({..<length xs} - {j})"
    using assms by auto
  then have "mset_set {..<length xs} = add_mset j (mset_set ({..<length xs} - {j}))"
    by (metis Diff_iff finite_Diff finite_lessThan insertI1 mset_set.insert)
  then have "mset xs = add_mset (xs ! j) (image_mset (nth xs) (mset_set ({..<length xs} - {j})))"
    using mset_nth_image [of xs] by simp
  then show ?thesis
    by simp
qed

lemma prod_others:
  assumes "j < length xs"
  shows "(\<Prod>m \<in> {..<length xs} - {j}. g (xs ! m)) = (\<Prod>q \<in># mset xs - {#xs ! j#}. g q)"
proof -
  have "(\<Prod>m \<in> {..<length xs} - {j}. g (xs ! m))
        = prod_mset (image_mset (\<lambda>m. g (xs ! m)) (mset_set ({..<length xs} - {j})))"
    by (simp add: prod_unfold_prod_mset)
  also have "\<dots> = prod_mset (image_mset g (image_mset (nth xs) (mset_set ({..<length xs} - {j}))))"
    by (simp add: multiset.map_comp comp_def)
  finally show ?thesis
    by (simp only: mset_others [OF assms])
qed

lemma termAt_termOf:
  assumes "\<forall>p \<in> set points. 0 \<le> fst p" and "j < length points"
  shows "termAt points j = termOf (mset points) (points ! j)"
  unfolding termAt_def termOf_def basis_eq [OF assms(1)] prod.case
    prod_others [OF assms(2), of fst]
    prod_others [OF assms(2), of "\<lambda>q. (fst q - fst (points ! j)) mod PRIME_MODULUS"]
  by (rule refl)

lemma sum_nth_mset: "(\<Sum>j<length xs. h (xs ! j)) = (\<Sum>p \<in># mset xs. h p)"
proof -
  have "(\<Sum>j<length xs. h (xs ! j)) = sum_mset (image_mset (\<lambda>j. h (xs ! j)) (mset_set {..<length xs}))"
    by (simp add: sum_unfold_sum_mset)
  also have "\<dots> = sum_mset (image_mset h (image_mset (nth xs) (mset_set {..<length xs})))"
    by (simp add: multiset.map_comp comp_def)
  finally show ?thesis
    by (simp only: mset_nth_image)
qed

lemma interpolateAt_interpolateM:
  assumes "\<forall>p \<in> set points. 0 \<le> fst p"
  shows "interpolateAt points = interpolateM (mset points)"
proof -
  have t: "termAt points j = termOf (mset points) (points ! j)" if "j < length points" for j
    using assms that by (rule termAt_termOf)
  have ex: "(\<exists>j<length points. isl (termAt points j))
            \<longleftrightarrow> (\<exists>p \<in># mset points. isl (termOf (mset points) p))"
  proof
    assume "\<exists>j<length points. isl (termAt points j)"
    then obtain j where "j < length points" and "isl (termOf (mset points) (points ! j))"
      using t by auto
    then show "\<exists>p \<in># mset points. isl (termOf (mset points) p)"
      using nth_mem [of j points] by auto
  next
    assume "\<exists>p \<in># mset points. isl (termOf (mset points) p)"
    then obtain p where "p \<in> set points" and p: "isl (termOf (mset points) p)"
      by auto
    then obtain j where "j < length points" and "points ! j = p"
      by (auto simp: in_set_conv_nth)
    with p t show "\<exists>j<length points. isl (termAt points j)"
      by auto
  qed
  have "(\<Sum>j<length points. projr (termAt points j))
        = (\<Sum>j<length points. projr (termOf (mset points) (points ! j)))"
    using t by (intro sum.cong) simp_all
  also have "\<dots> = (\<Sum>p \<in># mset points. projr (termOf (mset points) p))"
    by (rule sum_nth_mset)
  finally show ?thesis
    unfolding interpolateAt_def interpolateM_def ex by simp
qed

lemma parsePoint_nonneg: "parsePoint s = Inr p \<Longrightarrow> 0 \<le> fst p \<and> 0 \<le> snd p"
  by (auto simp: parsePoint_def Let_def split: sum.splits dest: BigInt_0x_nonneg)

lemma mapE_total:
  "\<forall>a \<in> set as. \<not> isl (f a) \<Longrightarrow> mapE f as = Inr (map (\<lambda>a. projr (f a)) as)"
proof (induction as)
  case Nil
  then show ?case by simp
next
  case (Cons a as)
  then show ?case
    by (cases "f a") auto
qed

lemma reconstructSecret_mset:
  "reconstructSecret shares
   = (if \<exists>s \<in># mset shares. isl (parsePoint s) then Inl SyntaxError
      else (case interpolateM (image_mset (\<lambda>s. projr (parsePoint s)) (mset shares)) of
              Inl e \<Rightarrow> Inl e
            | Inr v \<Rightarrow> Inr (padEven (toString16 v))))"
proof (cases "\<exists>s \<in> set shares. isl (parsePoint s)")
  case True
  then obtain s e where "s \<in> set shares" and "parsePoint s = Inl e"
    by (metis isl_def)
  then have "\<exists>e. mapE parsePoint shares = Inl e"
    using mapE_Inr_all [of parsePoint shares _ s] by (cases "mapE parsePoint shares") auto
  then have "mapE parsePoint shares = Inl SyntaxError"
    using mapE_error parsePoint_error by blast
  with True show ?thesis
    by (simp add: reconstructSecret_interpolateAt)
next
  case False
  then have m: "mapE parsePoint shares = Inr (map (\<lambda>s. projr (parsePoint s)) shares)"
    by (intro mapE_total) simp
  have "\<forall>p \<in> set (map (\<lambda>s. projr (parsePoint s)) shares). 0 \<le> fst p"
  proof
    fix p
    assume "p \<in> set (map (\<lambda>s. projr (parsePoint s)) shares)"
    then obtain s where "s \<in> set shares" and p: "p = projr (parsePoint s)"
      by auto
    with False have "parsePoint s = Inr p"
      by (cases "parsePoint s") auto
    then show "0 \<le> fst p"
      using parsePoint_nonneg by blast
  qed
  then have "interpolateAt (map (\<lambda>s. projr (parsePoint s)) shares)
             = interpolateM (image_mset (\<lambda>s. projr (parsePoint s)) (mset shares))"
    by (simp add: interpolateAt_interpolateM)
  with False m show ?thesis
    by (simp add: reconstructSecret_interpolateAt)
qed

text \<open>
  Claim C3.  \<open>reconstructSecret\<close> returns the same result (the same text, or the same
  exception) on any two share lists that are permutations of each other; the x values
  need not even be distinct for this.
\<close>

theorem reconstructSecret_order_independent:
  assumes "mset shares' = mset shares"
  shows "reconstructSecret shares' = reconstructSecret shares"
  by (simp only: reconstructSecret_mset assms)


theorem reconstructSecret_order_independent_witness:
  "mset [\<lparr>share_id = 2, data = ''2-7''\<rparr>, \<lparr>share_id = 1, data = ''1-5''\<rparr>]
     = mset [\<lparr>share_id = 1, data = ''1-5''\<rparr>, \<lparr>share_id = 2, data = ''2-7''\<rparr>]
   \<and> reconstructSecret [\<lparr>share_id = 2, data = ''2-7''\<rparr>, \<lparr>share_id = 1, data = ''1-5''\<rparr>]
     = reconstructSecret [\<lparr>share_id = 1, data = ''1-5''\<rparr>, \<lparr>share_id = 2, data = ''2-7''\<rparr>]"
proof -
  have p: "mset [\<lparr>share_id = 2, data = ''2-7''\<rparr>, \<lparr>share_id = 1, data = ''1-5''\<rparr>]
     = mset [\<lparr>share_id = 1, data = ''1-5''\<rparr>, \<lparr>share_id = 2, data = ''2-7''\<rparr>]"
    by simp
  show ?thesis
    by (rule conjI [OF p reconstructSecret_order_independent [OF p]])
qed

section \<open>Shares with equal x values\<close>

lemma termAt_denominator:
  assumes "\<forall>p \<in> set points. 0 \<le> fst p"
  shows "termAt points j
         = (case modInverse ((\<Prod>m \<in> {..<length points} - {j}.
                     (fst (points ! m) - fst (points ! j)) mod PRIME_MODULUS) mod PRIME_MODULUS)
                  PRIME_MODULUS of
              Inl e \<Rightarrow> Inl e
            | Inr invDenominator \<Rightarrow>
                Inr (snd (points ! j)
                     * ((\<Prod>m \<in> {..<length points} - {j}. fst (points ! m)) mod PRIME_MODULUS)
                     * invDenominator))"
  unfolding termAt_def basis_eq [OF assms] prod.case by (rule refl)

lemma denominator_zero_or_unit:
  assumes "zeroOrUnitDiffs (map fst points)" and "j < length points"
  shows "(\<Prod>m \<in> {..<length points} - {j}.
             (fst (points ! m) - fst (points ! j)) mod PRIME_MODULUS) mod PRIME_MODULUS = 0
       \<or> coprime ((\<Prod>m \<in> {..<length points} - {j}.
             (fst (points ! m) - fst (points ! j)) mod PRIME_MODULUS) mod PRIME_MODULUS) PRIME_MODULUS"
proof (cases "\<exists>m \<in> {..<length points} - {j}. (fst (points ! m) - fst (points ! j)) mod PRIME_MODULUS = 0")
  case True
  then have z: "(\<Prod>m \<in> {..<length points} - {j}.
             (fst (points ! m) - fst (points ! j)) mod PRIME_MODULUS) = 0"
    by (intro prod_zero) auto
  show ?thesis
    unfolding z by simp
next
  case False
  have "coprime ((fst (points ! m) - fst (points ! j)) mod PRIME_MODULUS) PRIME_MODULUS"
    if "m \<in> {..<length points} - {j}" for m
  proof -
    have "fst (points ! m) \<in> set (map fst points)" "fst (points ! j) \<in> set (map fst points)"
      using that assms(2) by simp_all
    with assms(1) have "(fst (points ! m) - fst (points ! j)) mod PRIME_MODULUS = 0
        \<or> coprime (fst (points ! m) - fst (points ! j)) PRIME_MODULUS"
      unfolding zeroOrUnitDiffs_def by blast
    with False that show ?thesis
      using PRIME_MODULUS_pos by (auto simp: coprime_mod_left_iff)
  qed
  then have "coprime (\<Prod>m \<in> {..<length points} - {j}.
             (fst (points ! m) - fst (points ! j)) mod PRIME_MODULUS) PRIME_MODULUS"
    by (intro prod_coprime_left)
  then have "coprime ((\<Prod>m \<in> {..<length points} - {j}.
             (fst (points ! m) - fst (points ! j)) mod PRIME_MODULUS) mod PRIME_MODULUS) PRIME_MODULUS"
    using PRIME_MODULUS_pos by (simp only: coprime_mod_left_iff)
  then show ?thesis
    by (rule disjI2)
qed

lemma modInverse_zero_or_unit:
  assumes "0 \<le> d" and "d = 0 \<or> coprime d PRIME_MODULUS"
  shows "\<not> isl (modInverse d PRIME_MODULUS)"
proof (cases "d = 0")
  case True
  then show ?thesis
    using PRIME_MODULUS_gt1 by (simp add: modInverse_zero)
next
  case False
  with assms have "0 < d" "coprime d PRIME_MODULUS"
    by auto
  then obtain r where "modInverse d PRIME_MODULUS = Inr r"
    using modInverse_correct [OF _ PRIME_MODULUS_gt1] by blast
  then show ?thesis by simp
qed

lemma termAt_no_error:
  assumes "\<forall>p \<in> set points. 0 \<le> fst p" and "zeroOrUnitDiffs (map fst points)"
    and "j < length points"
  shows "\<not> isl (termAt points j)"
proof -
  let ?d = "(\<Prod>m \<in> {..<length points} - {j}.
             (fst (points ! m) - fst (points ! j)) mod PRIME_MODULUS) mod PRIME_MODULUS"
  have "0 \<le> ?d"
    using PRIME_MODULUS_pos by simp
  then have "\<not> isl (modInverse ?d PRIME_MODULUS)"
    using denominator_zero_or_unit [OF assms(2,3)] by (rule modInverse_zero_or_unit)
  then show ?thesis
    unfolding termAt_denominator [OF assms(1)] by (auto split: sum.splits)
qed

lemma interpolateAt_value:
  assumes "\<forall>p \<in> set points. 0 \<le> fst p" and "zeroOrUnitDiffs (map fst points)"
  shows "interpolateAt points
         = Inr ((\<Sum>j<length points. projr (termAt points j)) mod PRIME_MODULUS)"
  using termAt_no_error [OF assms] by (simp add: interpolateAt_def)

lemma hexValue_zero_Cons: "hexValue (CHR ''0'' # s) = hexValue s"
  by (simp add: hexValue_def hexDigitValue_def)

lemma padEven_props:
  assumes "0 \<le> v"
  shows "even (length (padEven (toString16 v)))"
    and "BigInt_0x (padEven (toString16 v)) = Inr v"
    and "list_all isLowerHexDigit (padEven (toString16 v))"
proof -
  show "even (length (padEven (toString16 v)))"
    by (auto simp: padEven_def even_iff_mod_2_eq_zero odd_iff_mod_2_eq_one mod_Suc)
  have z: "isLowerHexDigit CHR ''0''"
    by (simp add: isLowerHexDigit_def)
  show l: "list_all isLowerHexDigit (padEven (toString16 v))"
    using assms toString16_lower [of v] z by (simp add: padEven_def)
  then have "list_all isHexDigit (padEven (toString16 v))"
    using lowerHex_isHexDigit by (auto simp: list_all_iff)
  moreover have "padEven (toString16 v) \<noteq> []"
    using assms by (simp add: padEven_def toString16_def hexDigits_not_Nil)
  ultimately have "BigInt_0x (padEven (toString16 v)) = Inr (int (hexValue (padEven (toString16 v))))"
    by (intro BigInt_0x_digits)
  moreover have "hexValue (padEven (toString16 v)) = nat v"
    using assms by (simp add: padEven_def hexValue_zero_Cons toString16_def hexValue_hexDigits)
  ultimately show "BigInt_0x (padEven (toString16 v)) = Inr v"
    using assms by simp
qed


lemma reconstructSecret_value:
  assumes "mapE parsePoint shares = Inr points" and "zeroOrUnitDiffs (map fst points)"
  shows "reconstructSecret shares
         = Inr (padEven (toString16 ((\<Sum>j<length points. projr (termAt points j)) mod PRIME_MODULUS)))"
proof -
  have "\<forall>p \<in> set points. 0 \<le> fst p"
  proof
    fix p
    assume "p \<in> set points"
    then have "Inr p \<in> set (map parsePoint shares)"
      using mapE_Inr_map [OF assms(1)] by simp
    then obtain s where "parsePoint s = Inr p"
      by auto
    then show "0 \<le> fst p"
      using parsePoint_nonneg by blast
  qed
  then show ?thesis
    using assms by (simp add: reconstructSecret_interpolateAt interpolateAt_value)
qed

lemma parsePoint_1_5: "parsePoint \<lparr>share_id = 1, data = ''1-5''\<rparr> = Inr (1, 5)"
  by (simp add: parsePoint_def BigInt_0x_def trimEnd_def isWhiteSpace_def isHexDigit_def
      hexValue_def hexDigitValue_def)

lemma parsePoint_1_7: "parsePoint \<lparr>share_id = 1, data = ''1-7''\<rparr> = Inr (1, 7)"
  by (simp add: parsePoint_def BigInt_0x_def trimEnd_def isWhiteSpace_def isHexDigit_def
      hexValue_def hexDigitValue_def)

lemma parse_duplicates:
  "mapE parsePoint [\<lparr>share_id = 1, data = ''1-5''\<rparr>, \<lparr>share_id = 1, data = ''1-7''\<rparr>]
   = Inr [(1, 5), (1, 7)]"
  by (simp add: parsePoint_1_5 parsePoint_1_7)

lemma zeroOrUnitDiffs_1_1: "zeroOrUnitDiffs (map fst [(1, 5), (1, 7)])"
  by (simp add: zeroOrUnitDiffs_def)

lemma termAt_duplicates:
  "termAt [(1, 5), (1, 7)] 0 = Inr 5" "termAt [(1, 5), (1, 7)] (Suc 0) = Inr 7"
proof -
  have nonneg: "\<forall>p \<in> set [(1::int, 5::int), (1, 7)]. 0 \<le> fst p"
    by simp
  have s0: "{..<length [(1::int, 5::int), (1, 7)]} - {0} = {1}"
    and s1: "{..<length [(1::int, 5::int), (1, 7)]} - {Suc 0} = {0}"
    by auto
  have one: "1 mod PRIME_MODULUS = 1"
    using PRIME_MODULUS_gt1 by simp
  have inv: "modInverse 0 PRIME_MODULUS = Inr 1"
    using PRIME_MODULUS_gt1 by (simp add: modInverse_zero)
  show "termAt [(1, 5), (1, 7)] 0 = Inr 5"
    unfolding termAt_denominator [OF nonneg] s0 by (simp add: one inv)
  show "termAt [(1, 5), (1, 7)] (Suc 0) = Inr 7"
    unfolding termAt_denominator [OF nonneg] s1 by (simp add: one inv)
qed

lemma toString16_12: "padEven (toString16 12) = ''0c''"
proof -
  have "hexDigit 12 = CHR ''c''"
    by (rule of_char_eqI [where ?'a = nat]) (simp add: hexDigit_def)
  then show ?thesis
    by (simp add: toString16_def hexDigits.simps padEven_def)
qed

text \<open>
  Claim C2 fails.  The two shares \<open>1-5\<close> and \<open>1-7\<close> have the same x value; both
  denominators are zero, \<open>modInverse\<close> returns 1 for them, and \<open>reconstructSecret\<close>
  returns the text \<open>0c\<close> (the value \<open>5 * 1 + 7 * 1\<close>) instead of failing.
\<close>

theorem reconstructSecret_duplicate_counterexample:
  "parsePoint \<lparr>share_id = 1, data = ''1-5''\<rparr> = Inr (1, 5)
   \<and> parsePoint \<lparr>share_id = 1, data = ''1-7''\<rparr> = Inr (1, 7)
   \<and> reconstructSecret [\<lparr>share_id = 1, data = ''1-5''\<rparr>, \<lparr>share_id = 1, data = ''1-7''\<rparr>]
       = Inr ''0c''"
proof -
  have "(12::int) mod PRIME_MODULUS = 12"
    by (simp add: PRIME_MODULUS_def)
  then have "reconstructSecret [\<lparr>share_id = 1, data = ''1-5''\<rparr>, \<lparr>share_id = 1, data = ''1-7''\<rparr>]
       = Inr ''0c''"
    unfolding reconstructSecret_value [OF parse_duplicates zeroOrUnitDiffs_1_1]
    by (simp add: termAt_duplicates lessThan_Suc numeral_2_eq_2 toString16_12)
  then show ?thesis
    using parsePoint_1_5 parsePoint_1_7 by simp
qed

text \<open>
  Claim C2, as amended.  For a list of well-formed shares that holds two shares with
  equal x values (and whose x values otherwise differ by numbers invertible modulo
  \<open>P\<close>), \<open>reconstructSecret\<close> does not fail: it returns a text of an even number of
  lower-case hexadecimal digits.
\<close>

theorem reconstructSecret_duplicate_returns:
  assumes "mapE parsePoint shares = Inr points"
    and "zeroOrUnitDiffs (map fst points)"
    and "\<exists>i<length points. \<exists>j<length points. i \<noteq> j \<and> fst (points ! i) = fst (points ! j)"
  shows "\<exists>hex. reconstructSecret shares = Inr hex \<and> even (length hex) \<and> list_all isLowerHexDigit hex"
proof -
  let ?v = "(\<Sum>j<length points. projr (termAt points j)) mod PRIME_MODULUS"
  have "0 \<le> ?v"
    using PRIME_MODULUS_pos by simp
  then show ?thesis
    using reconstructSecret_value [OF assms(1,2)] padEven_props(1,3) [of ?v] by simp
qed

theorem reconstructSecret_duplicate_returns_witness:
  "mapE parsePoint [\<lparr>share_id = 1, data = ''1-5''\<rparr>, \<lparr>share_id = 1, data = ''1-7''\<rparr>]
     = Inr [(1, 5), (1, 7)]
   \<and> zeroOrUnitDiffs (map fst [(1, 5), (1, 7)])
   \<and> (\<exists>i<length [(1::int, 5::int), (1, 7)]. \<exists>j<length [(1::int, 5::int), (1, 7)].
         i \<noteq> j \<and> fst ([(1::int, 5::int), (1, 7)] ! i) = fst ([(1::int, 5::int), (1, 7)] ! j))
   \<and> (\<exists>hex. reconstructSecret [\<lparr>share_id = 1, data = ''1-5''\<rparr>, \<lparr>share_id = 1, data = ''1-7''\<rparr>]
               = Inr hex \<and> even (length hex) \<and> list_all isLowerHexDigit hex)"
proof -
  have dup: "\<exists>i<length [(1::int, 5::int), (1, 7)]. \<exists>j<length [(1::int, 5::int), (1, 7)].
         i \<noteq> j \<and> fst ([(1::int, 5::int), (1, 7)] ! i) = fst ([(1::int, 5::int), (1, 7)] ! j)"
    by (rule exI [of _ 0], simp, rule exI [of _ 1], simp)
  note main = reconstructSecret_duplicate_returns [OF parse_duplicates zeroOrUnitDiffs_1_1 dup]
  show ?thesis
    by (rule conjI [OF parse_duplicates conjI [OF zeroOrUnitDiffs_1_1 conjI [OF dup main]]])
qed

section \<open>Polynomial functions and their roots modulo a number\<close>

lemma polyDegI: "(\<And>x. g x = (\<Sum>i\<le>n. c i * x ^ i)) \<Longrightarrow> polyDeg n g"
  unfolding polyDeg_def by blast

lemma polyDeg_const: "polyDeg n (\<lambda>x. a)"
proof -
  have "(\<Sum>i\<le>n. (if i = 0 then a else 0) * x ^ i) = a" for x :: int
  proof -
    have "(\<Sum>i\<le>n. (if i = 0 then a else 0) * x ^ i) = (\<Sum>i\<le>n. if i = 0 then a else 0)"
      by (intro sum.cong) auto
    then show ?thesis
      by simp
  qed
  then show ?thesis
    by (intro polyDegI [where c = "\<lambda>i. if i = 0 then a else 0"]) simp
qed

lemma polyDeg_add:
  assumes "polyDeg n f" and "polyDeg n g"
  shows "polyDeg n (\<lambda>x. f x + g x)"
proof -
  from assms obtain c d where "\<forall>x. f x = (\<Sum>i\<le>n. c i * x ^ i)" "\<forall>x. g x = (\<Sum>i\<le>n. d i * x ^ i)"
    unfolding polyDeg_def by blast
  then have "\<forall>x. f x + g x = (\<Sum>i\<le>n. (c i + d i) * x ^ i)"
    by (simp add: sum.distrib distrib_right)
  then show ?thesis
    by (intro polyDegI [where c = "\<lambda>i. c i + d i"]) simp
qed

lemma polyDeg_cmult:
  assumes "polyDeg n f"
  shows "polyDeg n (\<lambda>x. a * f x)"
proof -
  from assms obtain c where "\<forall>x. f x = (\<Sum>i\<le>n. c i * x ^ i)"
    unfolding polyDeg_def by blast
  then have "\<forall>x. a * f x = (\<Sum>i\<le>n. (a * c i) * x ^ i)"
    by (simp add: sum_distrib_left mult.assoc)
  then show ?thesis
    by (intro polyDegI [where c = "\<lambda>i. a * c i"]) simp
qed

lemma polyDeg_diff:
  assumes "polyDeg n f" and "polyDeg n g"
  shows "polyDeg n (\<lambda>x. f x - g x)"
  using polyDeg_add [OF assms(1) polyDeg_cmult [OF assms(2), of "- 1"]] by simp

lemma polyDeg_Suc:
  assumes "polyDeg n f"
  shows "polyDeg (Suc n) f"
proof -
  from assms obtain c where c: "\<forall>x. f x = (\<Sum>i\<le>n. c i * x ^ i)"
    unfolding polyDeg_def by blast
  have "\<forall>x. f x = (\<Sum>i\<le>Suc n. (if i \<le> n then c i else 0) * x ^ i)"
    by (simp add: c)
  then show ?thesis
    by (intro polyDegI [where c = "\<lambda>i. if i \<le> n then c i else 0"]) simp
qed

lemma polyDeg_mono: "polyDeg n f \<Longrightarrow> n \<le> m \<Longrightarrow> polyDeg m f"
  by (induction m) (auto simp: le_Suc_eq polyDeg_Suc)

lemma polyDeg_xmult:
  assumes "polyDeg n f"
  shows "polyDeg (Suc n) (\<lambda>x. x * f x)"
proof -
  from assms obtain c where c: "\<forall>x. f x = (\<Sum>i\<le>n. c i * x ^ i)"
    unfolding polyDeg_def by blast
  have "(\<Sum>i\<le>Suc n. (if i = 0 then 0 else c (i - 1)) * x ^ i) = x * f x" for x
  proof -
    have "(\<Sum>i\<le>Suc n. (if i = 0 then 0 else c (i - 1)) * x ^ i)
          = (\<Sum>i\<le>n. c i * x ^ Suc i)"
      by (simp only: sum.atMost_Suc_shift) simp
    also have "\<dots> = x * (\<Sum>i\<le>n. c i * x ^ i)"
      by (simp add: sum_distrib_left mult_ac)
    finally show ?thesis
      by (simp add: c)
  qed
  then show ?thesis
    by (intro polyDegI [where c = "\<lambda>i. if i = 0 then 0 else c (i - 1)"]) simp
qed

lemma polyDeg_linear:
  assumes "polyDeg n f"
  shows "polyDeg (Suc n) (\<lambda>x. (u - x) * f x)"
proof -
  have "polyDeg (Suc n) (\<lambda>x. u * f x - x * f x)"
    by (intro polyDeg_diff polyDeg_Suc polyDeg_cmult polyDeg_xmult assms)
  then show ?thesis
    by (simp add: left_diff_distrib)
qed

lemma polyDeg_prod:
  assumes "finite S"
  shows "polyDeg (card S) (\<lambda>x. \<Prod>m \<in> S. (u m - x))"
  using assms
proof (induction S)
  case empty
  then show ?case
    by (simp add: polyDeg_const)
next
  case (insert a S)
  then show ?case
    by (simp add: polyDeg_linear)
qed

lemma polyDeg_sum:
  assumes "finite S" and "\<forall>j \<in> S. polyDeg n (f j)"
  shows "polyDeg n (\<lambda>x. \<Sum>j \<in> S. f j x)"
  using assms
proof (induction S)
  case empty
  then show ?case
    by (simp add: polyDeg_const)
next
  case (insert a S)
  then show ?case
    by (simp add: polyDeg_add)
qed

lemma polyDeg_polyValue:
  assumes "length cs \<le> Suc n"
  shows "polyDeg n (polyValue cs)"
proof -
  have "polyValue cs x = (\<Sum>i\<le>n. (if i < length cs then cs ! i else 0) * x ^ i)" for x
  proof -
    have "(\<Sum>i\<le>n. (if i < length cs then cs ! i else 0) * x ^ i)
          = (\<Sum>i \<in> {..<length cs}. (if i < length cs then cs ! i else 0) * x ^ i)"
      using assms by (intro sum.mono_neutral_right) auto
    then show ?thesis
      by (simp add: polyValue_def)
  qed
  then show ?thesis
    by (intro polyDegI [where c = "\<lambda>i. if i < length cs then cs ! i else 0"]) simp
qed

lemma poly_roots_dvd:
  assumes "polyDeg n g" and "length rs = Suc n"
    and "sorted_wrt (\<lambda>a b. coprime (a - b) P) rs"
    and "\<forall>r \<in> set rs. P dvd g r"
  shows "P dvd g x"
  using assms
proof (induction n arbitrary: g rs)
  case 0
  then obtain c where "\<forall>x. g x = c (0::nat)"
    unfolding polyDeg_def by auto
  moreover from 0 obtain r where "rs = [r]"
    by (cases rs) auto
  ultimately have "g x = g r" and "P dvd g r"
    using 0 by simp_all
  then show ?case
    by simp
next
  case (Suc n)
  from Suc.prems obtain r rs' where rs: "rs = r # rs'" and len: "length rs' = Suc n"
    by (cases rs) auto
  from Suc.prems obtain c where c: "\<forall>x. g x = (\<Sum>i\<le>Suc n. c i * x ^ i)"
    unfolding polyDeg_def by blast
  obtain b where b: "\<And>z. (\<Sum>i\<le>Suc n. c i * z ^ i)
                       = (z - r) * (\<Sum>i<Suc n. b i * z ^ i) + (\<Sum>i\<le>Suc n. c i * r ^ i)"
    using polyfun_linear_factor [of c "Suc n" r] by blast
  have fact: "g z = (z - r) * (\<Sum>i\<le>n. b i * z ^ i) + g r" for z
  proof -
    have "g z = (\<Sum>i\<le>Suc n. c i * z ^ i)"
      using c by blast
    also have "\<dots> = (z - r) * (\<Sum>i<Suc n. b i * z ^ i) + (\<Sum>i\<le>Suc n. c i * r ^ i)"
      by (rule b)
    also have "(\<Sum>i\<le>Suc n. c i * r ^ i) = g r"
      using c by (simp only:)
    also have "(\<Sum>i<Suc n. b i * z ^ i) = (\<Sum>i\<le>n. b i * z ^ i)"
      by (simp only: lessThan_Suc_atMost)
    finally show ?thesis .
  qed
  have gr: "P dvd g r"
    using Suc.prems rs by simp
  have "P dvd (\<Sum>i\<le>n. b i * s ^ i)" if "s \<in> set rs'" for s
  proof -
    have "P dvd g s"
      using Suc.prems rs that by simp
    then have "P dvd (s - r) * (\<Sum>i\<le>n. b i * s ^ i) + g r"
      using fact [of s] by simp
    then have "P dvd (s - r) * (\<Sum>i\<le>n. b i * s ^ i)"
      using gr by (simp add: dvd_add_left_iff)
    moreover have "coprime (r - s) P"
      using Suc.prems rs that by simp
    then have "coprime (- (r - s)) P"
      by (simp only: coprime_minus_left_iff)
    then have "coprime P (s - r)"
      by (simp add: coprime_commute)
    ultimately show ?thesis
      by (simp add: coprime_dvd_mult_right_iff)
  qed
  moreover have "polyDeg n (\<lambda>z. \<Sum>i\<le>n. b i * z ^ i)"
    by (rule polyDegI [where c = b]) simp
  moreover have "sorted_wrt (\<lambda>a b. coprime (a - b) P) rs'"
    using Suc.prems rs by simp
  ultimately have "P dvd (\<Sum>i\<le>n. b i * x ^ i)"
    using len by (intro Suc.IH [of "\<lambda>z. \<Sum>i\<le>n. b i * z ^ i" rs']) simp_all
  then have "P dvd (x - r) * (\<Sum>i\<le>n. b i * x ^ i) + g r"
    using gr by simp
  then show ?case
    by (simp only: fact [of x])
qed


section \<open>Lagrange interpolation at zero\<close>

lemma unitDiffs_zeroOrUnitDiffs: "unitDiffs xs \<Longrightarrow> zeroOrUnitDiffs xs"
  unfolding unitDiffs_def zeroOrUnitDiffs_def
proof (intro ballI)
  fix a b
  assume u: "\<forall>i<length xs. \<forall>j<length xs. i \<noteq> j \<longrightarrow> coprime (xs ! i - xs ! j) PRIME_MODULUS"
    and "a \<in> set xs" and "b \<in> set xs"
  then obtain i j where ij: "i < length xs" "j < length xs" "xs ! i = a" "xs ! j = b"
    by (auto simp: in_set_conv_nth)
  show "(a - b) mod PRIME_MODULUS = 0 \<or> coprime (a - b) PRIME_MODULUS"
  proof (cases "i = j")
    case True
    with ij show ?thesis by auto
  next
    case False
    with u ij show ?thesis by blast
  qed
qed

lemma unitDiffs_sorted_wrt:
  "unitDiffs xs \<Longrightarrow> sorted_wrt (\<lambda>a b. coprime (a - b) PRIME_MODULUS) xs"
  unfolding unitDiffs_def sorted_wrt_iff_nth_less by auto

lemma termAt_unit:
  assumes "\<forall>p \<in> set points. 0 \<le> fst p" and "unitDiffs (map fst points)"
    and "j < length points"
  shows "\<exists>r. termAt points j
             = Inr (snd (points ! j)
                    * ((\<Prod>m \<in> {..<length points} - {j}. fst (points ! m)) mod PRIME_MODULUS) * r)
           \<and> PRIME_MODULUS dvd
               r * (\<Prod>m \<in> {..<length points} - {j}. fst (points ! m) - fst (points ! j)) - 1"
proof -
  let ?S = "{..<length points} - {j}"
  let ?D = "\<Prod>m \<in> ?S. fst (points ! m) - fst (points ! j)"
  let ?d = "(\<Prod>m \<in> ?S. (fst (points ! m) - fst (points ! j)) mod PRIME_MODULUS) mod PRIME_MODULUS"
  have dD: "?d = ?D mod PRIME_MODULUS"
    by (rule mod_prod_eq)
  have "coprime (fst (points ! m) - fst (points ! j)) PRIME_MODULUS" if "m \<in> ?S" for m
    using assms(2,3) that unfolding unitDiffs_def by simp
  then have "coprime ?D PRIME_MODULUS"
    by (intro prod_coprime_left)
  then have cop: "coprime ?d PRIME_MODULUS"
    using PRIME_MODULUS_pos unfolding dD by (simp only: coprime_mod_left_iff)
  have "0 \<le> ?d"
    using PRIME_MODULUS_pos by simp
  moreover have "?d \<noteq> 0"
    using cop PRIME_MODULUS_gt1 by auto
  ultimately have "0 < ?d"
    by simp
  then obtain r where r: "modInverse ?d PRIME_MODULUS = Inr r" and one: "(?d * r) mod PRIME_MODULUS = 1"
    using modInverse_correct [OF _ PRIME_MODULUS_gt1 cop] by blast
  have "(?D * r) mod PRIME_MODULUS = (?d * r) mod PRIME_MODULUS"
    unfolding dD by (simp add: mod_mult_left_eq)
  then have "(?D * r) mod PRIME_MODULUS = 1 mod PRIME_MODULUS"
    using one PRIME_MODULUS_gt1 by simp
  then have "PRIME_MODULUS dvd ?D * r - 1"
    by (simp only: mod_eq_dvd_iff)
  then have "PRIME_MODULUS dvd r * ?D - 1"
    by (simp only: mult.commute)
  moreover have "termAt points j
             = Inr (snd (points ! j) * ((\<Prod>m \<in> ?S. fst (points ! m)) mod PRIME_MODULUS) * r)"
    unfolding termAt_denominator [OF assms(1)] r by simp
  ultimately show ?thesis
    by blast
qed


lemma lagrange_sum:
  assumes nonneg: "\<forall>p \<in> set points. 0 \<le> fst p"
    and units: "unitDiffs (map fst points)"
    and len: "length cs \<le> length points"
    and fits: "\<forall>j<length points. PRIME_MODULUS dvd polyValue cs (fst (points ! j)) - snd (points ! j)"
  shows "(\<Sum>j<length points. projr (termAt points j)) mod PRIME_MODULUS
         = polyValue cs 0 mod PRIME_MODULUS"
proof (cases "length points")
  case 0
  with len show ?thesis
    by (simp add: polyValue_Nil)
next
  case (Suc n')
  define n where "n = length points"
  define X where "X j = fst (points ! j)" for j
  define Y where "Y j = snd (points ! j)" for j
  define R where "R j = (SOME r. termAt points j
             = Inr (Y j * ((\<Prod>m \<in> {..<n} - {j}. X m) mod PRIME_MODULUS) * r)
           \<and> PRIME_MODULUS dvd r * (\<Prod>m \<in> {..<n} - {j}. X m - X j) - 1)" for j
  have R: "termAt points j = Inr (Y j * ((\<Prod>m \<in> {..<n} - {j}. X m) mod PRIME_MODULUS) * R j)
           \<and> PRIME_MODULUS dvd R j * (\<Prod>m \<in> {..<n} - {j}. X m - X j) - 1" if "j < n" for j
  proof -
    have "\<exists>r. termAt points j
             = Inr (Y j * ((\<Prod>m \<in> {..<n} - {j}. X m) mod PRIME_MODULUS) * r)
           \<and> PRIME_MODULUS dvd r * (\<Prod>m \<in> {..<n} - {j}. X m - X j) - 1"
      using termAt_unit [OF nonneg units, of j] that unfolding n_def X_def Y_def by simp
    then show ?thesis
      unfolding R_def by (rule someI_ex)
  qed
  define G where "G x = (\<Sum>j \<in> {..<n}. Y j * R j * (\<Prod>m \<in> {..<n} - {j}. (X m - x))) - polyValue cs x" for x
  have card: "card ({..<n} - {j}) = n'" if "j < n" for j
    using that Suc by (simp add: n_def)
  have "polyDeg n' (\<lambda>x. \<Sum>j \<in> {..<n}. Y j * R j * (\<Prod>m \<in> {..<n} - {j}. (X m - x)))"
  proof (intro polyDeg_sum ballI)
    fix j
    assume "j \<in> {..<n}"
    then have "polyDeg (card ({..<n} - {j})) (\<lambda>x. \<Prod>m \<in> {..<n} - {j}. (X m - x))"
      by (intro polyDeg_prod) simp
    then have "polyDeg n' (\<lambda>x. \<Prod>m \<in> {..<n} - {j}. (X m - x))"
      using card \<open>j \<in> {..<n}\<close> by simp
    then show "polyDeg n' (\<lambda>x. Y j * R j * (\<Prod>m \<in> {..<n} - {j}. (X m - x)))"
      by (rule polyDeg_cmult)
  qed simp
  moreover have "polyDeg n' (polyValue cs)"
    using len Suc by (intro polyDeg_polyValue) simp
  ultimately have deg: "polyDeg n' G"
    unfolding G_def by (rule polyDeg_diff)
  have root: "PRIME_MODULUS dvd G (X i)" if "i < n" for i
  proof -
    have zero: "Y j * R j * (\<Prod>m \<in> {..<n} - {j}. (X m - X i)) = 0" if "j \<in> {..<n} - {i}" for j
    proof -
      have "(\<Prod>m \<in> {..<n} - {j}. (X m - X i)) = 0"
        using that \<open>i < n\<close> by (intro prod_zero) auto
      then show ?thesis by simp
    qed
    have "(\<Sum>j \<in> {..<n}. Y j * R j * (\<Prod>m \<in> {..<n} - {j}. (X m - X i)))
          = Y i * R i * (\<Prod>m \<in> {..<n} - {i}. (X m - X i))
            + (\<Sum>j \<in> {..<n} - {i}. Y j * R j * (\<Prod>m \<in> {..<n} - {j}. (X m - X i)))"
      using that by (intro sum.remove) simp_all
    also have "(\<Sum>j \<in> {..<n} - {i}. Y j * R j * (\<Prod>m \<in> {..<n} - {j}. (X m - X i))) = 0"
      using zero by (intro sum.neutral) blast
    finally have Gi: "G (X i) = Y i * R i * (\<Prod>m \<in> {..<n} - {i}. (X m - X i)) - polyValue cs (X i)"
      by (simp add: G_def)
    have "PRIME_MODULUS dvd R i * (\<Prod>m \<in> {..<n} - {i}. X m - X i) - 1"
      using R that by blast
    then have "PRIME_MODULUS dvd Y i * (R i * (\<Prod>m \<in> {..<n} - {i}. X m - X i) - 1)"
      by (rule dvd_mult)
    moreover have "PRIME_MODULUS dvd polyValue cs (X i) - Y i"
      using fits that by (simp add: n_def X_def Y_def)
    ultimately have "PRIME_MODULUS dvd Y i * (R i * (\<Prod>m \<in> {..<n} - {i}. X m - X i) - 1)
                       - (polyValue cs (X i) - Y i)"
      by (rule dvd_diff)
    moreover have "Y i * (R i * (\<Prod>m \<in> {..<n} - {i}. X m - X i) - 1) - (polyValue cs (X i) - Y i)
                   = G (X i)"
      unfolding Gi by (simp add: algebra_simps)
    ultimately show ?thesis
      by simp
  qed
  have "PRIME_MODULUS dvd G 0"
  proof (rule poly_roots_dvd [OF deg, of "map fst points"])
    show "length (map fst points) = Suc n'"
      using Suc by simp
    show "sorted_wrt (\<lambda>a b. coprime (a - b) PRIME_MODULUS) (map fst points)"
      using units by (rule unitDiffs_sorted_wrt)
    show "\<forall>r \<in> set (map fst points). PRIME_MODULUS dvd G r"
    proof
      fix r
      assume "r \<in> set (map fst points)"
      then obtain i where "i < n" and "r = X i"
        by (auto simp: in_set_conv_nth n_def X_def)
      then show "PRIME_MODULUS dvd G r"
        using root by simp
    qed
  qed
  then have G0: "PRIME_MODULUS dvd (\<Sum>j \<in> {..<n}. Y j * R j * (\<Prod>m \<in> {..<n} - {j}. X m)) - polyValue cs 0"
    by (simp add: G_def)
  have "PRIME_MODULUS dvd (\<Sum>j \<in> {..<n}. projr (termAt points j) - Y j * R j * (\<Prod>m \<in> {..<n} - {j}. X m))"
  proof (rule dvd_sum)
    fix j
    assume "j \<in> {..<n}"
    then have t: "projr (termAt points j) = Y j * ((\<Prod>m \<in> {..<n} - {j}. X m) mod PRIME_MODULUS) * R j"
      using R by simp
    have "PRIME_MODULUS dvd (\<Prod>m \<in> {..<n} - {j}. X m) mod PRIME_MODULUS - (\<Prod>m \<in> {..<n} - {j}. X m)"
      by (simp add: mod_eq_dvd_iff [symmetric])
    then have "PRIME_MODULUS dvd (Y j * R j)
                 * ((\<Prod>m \<in> {..<n} - {j}. X m) mod PRIME_MODULUS - (\<Prod>m \<in> {..<n} - {j}. X m))"
      by (rule dvd_mult)
    moreover have "(Y j * R j) * ((\<Prod>m \<in> {..<n} - {j}. X m) mod PRIME_MODULUS - (\<Prod>m \<in> {..<n} - {j}. X m))
                   = projr (termAt points j) - Y j * R j * (\<Prod>m \<in> {..<n} - {j}. X m)"
      unfolding t by (simp add: algebra_simps)
    ultimately show "PRIME_MODULUS dvd projr (termAt points j) - Y j * R j * (\<Prod>m \<in> {..<n} - {j}. X m)"
      by simp
  qed
  then have "PRIME_MODULUS dvd (\<Sum>j \<in> {..<n}. projr (termAt points j))
                               - (\<Sum>j \<in> {..<n}. Y j * R j * (\<Prod>m \<in> {..<n} - {j}. X m))"
    by (simp only: sum_subtractf)
  with G0 have "PRIME_MODULUS dvd ((\<Sum>j \<in> {..<n}. projr (termAt points j))
                               - (\<Sum>j \<in> {..<n}. Y j * R j * (\<Prod>m \<in> {..<n} - {j}. X m)))
                 + ((\<Sum>j \<in> {..<n}. Y j * R j * (\<Prod>m \<in> {..<n} - {j}. X m)) - polyValue cs 0)"
    by (rule dvd_add [rotated])
  then have "PRIME_MODULUS dvd (\<Sum>j \<in> {..<n}. projr (termAt points j)) - polyValue cs 0"
    by simp
  then show ?thesis
    unfolding n_def by (simp only: mod_eq_dvd_iff)
qed


lemma lagrange_basis_at_node:
  assumes "i < (n::nat)"
  shows "(\<Sum>j \<in> {..<n}. a j * (\<Prod>m \<in> {..<n} - {j}. (X m - X i)))
         = a i * (\<Prod>m \<in> {..<n} - {i}. (X m - X i :: int))"
proof -
  have zero: "a j * (\<Prod>m \<in> {..<n} - {j}. (X m - X i)) = 0" if "j \<in> {..<n} - {i}" for j
  proof -
    have "(\<Prod>m \<in> {..<n} - {j}. (X m - X i)) = 0"
      using that assms by (intro prod_zero) auto
    then show ?thesis by simp
  qed
  have "(\<Sum>j \<in> {..<n}. a j * (\<Prod>m \<in> {..<n} - {j}. (X m - X i)))
        = a i * (\<Prod>m \<in> {..<n} - {i}. (X m - X i))
          + (\<Sum>j \<in> {..<n} - {i}. a j * (\<Prod>m \<in> {..<n} - {j}. (X m - X i)))"
    using assms by (intro sum.remove) simp_all
  also have "(\<Sum>j \<in> {..<n} - {i}. a j * (\<Prod>m \<in> {..<n} - {j}. (X m - X i))) = 0"
    using zero by (intro sum.neutral) blast
  finally show ?thesis
    by simp
qed

lemma interpolates_exists:
  assumes nonneg: "\<forall>p \<in> set points. 0 \<le> fst p"
    and units: "unitDiffs (map fst points)"
  shows "\<exists>cs. interpolates cs points"
proof (cases "length points")
  case 0
  then show ?thesis
    by (intro exI [of _ "[]"]) (simp add: interpolates_def)
next
  case (Suc n')
  define n where "n = length points"
  define X where "X j = fst (points ! j)" for j
  define Y where "Y j = snd (points ! j)" for j
  define R where "R j = (SOME r. PRIME_MODULUS dvd r * (\<Prod>m \<in> {..<n} - {j}. X m - X j) - 1)" for j
  have R: "PRIME_MODULUS dvd R j * (\<Prod>m \<in> {..<n} - {j}. X m - X j) - 1" if "j < n" for j
  proof -
    have "\<exists>r. PRIME_MODULUS dvd r * (\<Prod>m \<in> {..<n} - {j}. X m - X j) - 1"
      using termAt_unit [OF nonneg units, of j] that unfolding n_def X_def by auto
    then show ?thesis
      unfolding R_def by (rule someI_ex)
  qed
  define L where "L x = (\<Sum>j \<in> {..<n}. (Y j * R j) * (\<Prod>m \<in> {..<n} - {j}. (X m - x)))" for x
  have card: "card ({..<n} - {j}) = n'" if "j < n" for j
    using that Suc by (simp add: n_def)
  have "polyDeg n' (\<lambda>x. \<Sum>j \<in> {..<n}. (Y j * R j) * (\<Prod>m \<in> {..<n} - {j}. (X m - x)))"
  proof (intro polyDeg_sum ballI)
    fix j
    assume "j \<in> {..<n}"
    then have "polyDeg (card ({..<n} - {j})) (\<lambda>x. \<Prod>m \<in> {..<n} - {j}. (X m - x))"
      by (intro polyDeg_prod) simp
    then have "polyDeg n' (\<lambda>x. \<Prod>m \<in> {..<n} - {j}. (X m - x))"
      using card \<open>j \<in> {..<n}\<close> by simp
    then show "polyDeg n' (\<lambda>x. (Y j * R j) * (\<Prod>m \<in> {..<n} - {j}. (X m - x)))"
      by (rule polyDeg_cmult)
  qed simp
  then obtain c where c: "\<And>x. L x = (\<Sum>i\<le>n'. c i * x ^ i)"
    unfolding polyDeg_def L_def by blast
  define cs where "cs = map c [0..<Suc n']"
  have val: "polyValue cs x = L x" for x
  proof -
    have "polyValue cs x = (\<Sum>i<Suc n'. c i * x ^ i)"
      unfolding polyValue_def cs_def by (intro sum.cong) (simp_all del: upt_Suc)
    then show ?thesis
      by (simp only: c lessThan_Suc_atMost)
  qed
  have "polyValue cs (fst p) mod PRIME_MODULUS = snd p mod PRIME_MODULUS" if "p \<in> set points" for p
  proof -
    from that obtain i where i: "i < n" and p: "points ! i = p"
      by (auto simp: in_set_conv_nth n_def)
    have "L (X i) = (Y i * R i) * (\<Prod>m \<in> {..<n} - {i}. (X m - X i))"
      unfolding L_def using i by (rule lagrange_basis_at_node)
    moreover have "PRIME_MODULUS dvd Y i * (R i * (\<Prod>m \<in> {..<n} - {i}. X m - X i) - 1)"
      using R [OF i] by (rule dvd_mult)
    moreover have "Y i * (R i * (\<Prod>m \<in> {..<n} - {i}. X m - X i) - 1)
                   = (Y i * R i) * (\<Prod>m \<in> {..<n} - {i}. (X m - X i)) - Y i"
      by (simp add: algebra_simps)
    ultimately have "PRIME_MODULUS dvd L (X i) - Y i"
      by simp
    then have "L (X i) mod PRIME_MODULUS = Y i mod PRIME_MODULUS"
      by (simp only: mod_eq_dvd_iff)
    then show ?thesis
      using p by (simp add: val X_def Y_def)
  qed
  moreover have "length cs \<le> length points"
    using Suc by (simp add: cs_def)
  ultimately show ?thesis
    unfolding interpolates_def by blast
qed

lemma interpolateAt_polynomial:
  assumes nonneg: "\<forall>p \<in> set points. 0 \<le> fst p"
    and units: "unitDiffs (map fst points)"
    and fit: "interpolates cs points"
  shows "interpolateAt points = Inr (polyValue cs 0 mod PRIME_MODULUS)"
proof -
  have "PRIME_MODULUS dvd polyValue cs (fst (points ! j)) - snd (points ! j)"
    if "j < length points" for j
  proof -
    have "points ! j \<in> set points"
      using that by simp
    with fit have "polyValue cs (fst (points ! j)) mod PRIME_MODULUS = snd (points ! j) mod PRIME_MODULUS"
      unfolding interpolates_def by blast
    then show ?thesis
      by (simp only: mod_eq_dvd_iff)
  qed
  then have "(\<Sum>j<length points. projr (termAt points j)) mod PRIME_MODULUS
             = polyValue cs 0 mod PRIME_MODULUS"
    using nonneg units fit by (intro lagrange_sum) (simp_all add: interpolates_def)
  then show ?thesis
    using interpolateAt_value [OF nonneg unitDiffs_zeroOrUnitDiffs [OF units]] by simp
qed


section \<open>Small numbers are invertible modulo the modulus\<close>

lemma coprime_by_remainder:
  assumes "P mod d = r" and "u * d + v * r = (1::int)"
  shows "coprime d P"
proof (rule coprimeI)
  fix c
  assume "c dvd d" and "c dvd P"
  then have "c dvd P mod d"
    by (simp add: dvd_mod)
  then have "c dvd r"
    using assms(1) by simp
  then have "c dvd u * d + v * r"
    using \<open>c dvd d\<close> by simp
  then show "is_unit c"
    using assms(2) by simp
qed

lemma power_one_mod:
  assumes "a mod m = (1::int)"
  shows "(a ^ e * b) mod m = b mod m"
proof -
  have "a ^ e mod m = (a mod m) ^ e mod m"
    by (simp only: power_mod)
  then have "a ^ e mod m = 1 mod m"
    using assms by simp
  then have "(a ^ e mod m * b) mod m = (1 mod m * b) mod m"
    by simp
  then show ?thesis
    by (simp add: mod_mult_left_eq)
qed

lemma residue:
  assumes "(2::int) ^ 521 = (2 ^ a) ^ e * b" and "(2::int) ^ a mod m = 1" and "(b - 1) mod m = r"
  shows "PRIME_MODULUS mod m = r"
proof -
  have "(2::int) ^ 521 mod m = b mod m"
    unfolding assms(1) using assms(2) by (rule power_one_mod)
  then have "((2::int) ^ 521 - 1) mod m = (b - 1) mod m"
    by (rule mod_diff_cong) (rule refl)
  then show ?thesis
    unfolding PRIME_MODULUS_def assms(3) .
qed

lemma PRIME_MODULUS_residues:
  "PRIME_MODULUS mod 2 = 1" "PRIME_MODULUS mod 3 = 1"
  "PRIME_MODULUS mod 5 = 1" "PRIME_MODULUS mod 7 = 3"
proof -
  have e2: "(2::int) ^ 521 = (2 ^ 0) ^ 1 * 2 ^ 521"
    by (simp only: power_0 power_one mult_1)
  have e3: "(2::int) ^ 521 = (2 ^ 2) ^ 260 * 2"
    and e5: "(2::int) ^ 521 = (2 ^ 4) ^ 130 * 2"
    and e7: "(2::int) ^ 521 = (2 ^ 3) ^ 173 * 4"
    by simp_all
  show "PRIME_MODULUS mod 3 = 1"
    by (rule residue [OF e3]) simp_all
  show "PRIME_MODULUS mod 5 = 1"
    by (rule residue [OF e5]) simp_all
  show "PRIME_MODULUS mod 7 = 3"
    by (rule residue [OF e7]) simp_all
  have "odd ((2::int) ^ 521 - 1)"
    by (simp only: even_diff even_power) simp
  then show "PRIME_MODULUS mod 2 = 1"
    by (simp only: PRIME_MODULUS_def odd_iff_mod_2_eq_one)
qed

lemma PRIME_MODULUS_small_coprime:
  assumes "0 < d" and "d < 10"
  shows "coprime d PRIME_MODULUS"
proof -
  have c2: "coprime 2 PRIME_MODULUS"
    by (rule coprime_by_remainder [OF PRIME_MODULUS_residues(1), of 0 1]) simp
  have c3: "coprime 3 PRIME_MODULUS"
    by (rule coprime_by_remainder [OF PRIME_MODULUS_residues(2), of 0 1]) simp
  have c5: "coprime 5 PRIME_MODULUS"
    by (rule coprime_by_remainder [OF PRIME_MODULUS_residues(3), of 0 1]) simp
  have c7: "coprime 7 PRIME_MODULUS"
    by (rule coprime_by_remainder [OF PRIME_MODULUS_residues(4), of 1 "- 2"]) simp
  have c4: "coprime (2 * 2) PRIME_MODULUS"
    using c2 by (simp only: coprime_mult_left_iff)
  have c6: "coprime (2 * 3) PRIME_MODULUS"
    using c2 c3 by (simp only: coprime_mult_left_iff)
  have c8: "coprime (2 * (2 * 2)) PRIME_MODULUS"
    using c2 c4 by (simp only: coprime_mult_left_iff)
  have c9: "coprime (3 * 3) PRIME_MODULUS"
    using c3 by (simp only: coprime_mult_left_iff)
  have "d = 1 \<or> d = 2 \<or> d = 3 \<or> d = 2 * 2 \<or> d = 5 \<or> d = 2 * 3 \<or> d = 7 \<or> d = 2 * (2 * 2) \<or> d = 3 * 3"
    using assms by arith
  then show ?thesis
    using c2 c3 c4 c5 c6 c7 c8 c9 by (elim disjE) (simp_all only: coprime_1_left)
qed

lemma PRIME_MODULUS_diff_coprime:
  assumes "1 \<le> a" and "a \<le> 10" and "1 \<le> b" and "b \<le> 10" and "a \<noteq> b"
  shows "coprime (a - b) PRIME_MODULUS"
proof (cases "b < a")
  case True
  then show ?thesis
    using assms by (intro PRIME_MODULUS_small_coprime) simp_all
next
  case False
  then have "coprime (b - a) PRIME_MODULUS"
    using assms by (intro PRIME_MODULUS_small_coprime) simp_all
  then have "coprime (- (b - a)) PRIME_MODULUS"
    by (simp only: coprime_minus_left_iff)
  then show ?thesis
    by simp
qed


section \<open>The value that reconstructSecret returns\<close>

lemma mapE_points_nonneg:
  assumes "mapE parsePoint shares = Inr points"
  shows "\<forall>p \<in> set points. 0 \<le> fst p \<and> 0 \<le> snd p"
proof
  fix p
  assume "p \<in> set points"
  then have "Inr p \<in> set (map parsePoint shares)"
    using mapE_Inr_map [OF assms] by simp
  then obtain s where "parsePoint s = Inr p"
    by auto
  then show "0 \<le> fst p \<and> 0 \<le> snd p"
    by (rule parsePoint_nonneg)
qed

lemma padEven_cases:
  "padEven hex = (if odd (length hex) then CHR ''0'' # hex else hex)"
  by (simp add: padEven_def odd_iff_mod_2_eq_one)

text \<open>
  Claim C6.  For a share list that is valid (every share is well formed, and the x
  values at different positions differ by numbers invertible modulo \<open>P\<close>),
  \<open>reconstructSecret\<close> returns the hexadecimal text of a value \<open>v\<close> in \<open>[0, P)\<close>, with one
  \<open>0\<close> put in front when the text has an odd number of digits, so that the result has
  an even number of digits and reads back as \<open>v\<close>; and \<open>v\<close> is the interpolated value:
  a polynomial of degree below the number of points through the points exists, and
  every such polynomial has the value \<open>v\<close> at 0 modulo \<open>P\<close>.
\<close>

theorem reconstructSecret_interpolated_value:
  assumes "mapE parsePoint shares = Inr points" and "unitDiffs (map fst points)"
  shows "\<exists>v. reconstructSecret shares = Inr (padEven (toString16 v))
           \<and> 0 \<le> v \<and> v < PRIME_MODULUS
           \<and> even (length (padEven (toString16 v)))
           \<and> padEven (toString16 v)
               = (if odd (length (toString16 v)) then CHR ''0'' # toString16 v else toString16 v)
           \<and> BigInt_0x (padEven (toString16 v)) = Inr v
           \<and> (\<exists>cs. interpolates cs points)
           \<and> (\<forall>cs. interpolates cs points \<longrightarrow> v = polyValue cs 0 mod PRIME_MODULUS)"
proof -
  have nonneg: "\<forall>p \<in> set points. 0 \<le> fst p"
    using mapE_points_nonneg [OF assms(1)] by blast
  obtain cs where cs: "interpolates cs points"
    using interpolates_exists [OF nonneg assms(2)] by blast
  let ?v = "polyValue cs 0 mod PRIME_MODULUS"
  have val: "interpolateAt points = Inr (polyValue cs' 0 mod PRIME_MODULUS)"
    if "interpolates cs' points" for cs'
    using nonneg assms(2) that by (rule interpolateAt_polynomial)
  have "reconstructSecret shares = Inr (padEven (toString16 ?v))"
    using assms(1) val [OF cs] by (simp add: reconstructSecret_interpolateAt)
  moreover have rng: "0 \<le> ?v" "?v < PRIME_MODULUS"
    using PRIME_MODULUS_pos by simp_all
  moreover have "\<forall>cs'. interpolates cs' points \<longrightarrow> ?v = polyValue cs' 0 mod PRIME_MODULUS"
    using val val [OF cs] by auto
  ultimately show ?thesis
    using cs padEven_props(1,2) [OF rng(1)] padEven_cases [of "toString16 ?v"] by blast
qed

lemma parsePoint_2_7: "parsePoint \<lparr>share_id = 2, data = ''2-7''\<rparr> = Inr (2, 7)"
  by (simp add: parsePoint_def BigInt_0x_def trimEnd_def isWhiteSpace_def isHexDigit_def
      hexValue_def hexDigitValue_def)

lemma parse_two_shares:
  "mapE parsePoint [\<lparr>share_id = 1, data = ''1-5''\<rparr>, \<lparr>share_id = 2, data = ''2-7''\<rparr>]
   = Inr [(1, 5), (2, 7)]"
  by (simp add: parsePoint_1_5 parsePoint_2_7)

lemma unitDiffs_1_2: "unitDiffs (map fst [(1, 5), (2, 7)])"
  by (auto simp: unitDiffs_def less_Suc_eq numeral_2_eq_2)

theorem reconstructSecret_interpolated_value_witness:
  "mapE parsePoint [\<lparr>share_id = 1, data = ''1-5''\<rparr>, \<lparr>share_id = 2, data = ''2-7''\<rparr>]
     = Inr [(1, 5), (2, 7)]
   \<and> unitDiffs (map fst [(1, 5), (2, 7)])
   \<and> (\<exists>v. reconstructSecret [\<lparr>share_id = 1, data = ''1-5''\<rparr>, \<lparr>share_id = 2, data = ''2-7''\<rparr>]
             = Inr (padEven (toString16 v))
           \<and> 0 \<le> v \<and> v < PRIME_MODULUS
           \<and> even (length (padEven (toString16 v)))
           \<and> padEven (toString16 v)
               = (if odd (length (toString16 v)) then CHR ''0'' # toString16 v else toString16 v)
           \<and> BigInt_0x (padEven (toString16 v)) = Inr v
           \<and> (\<exists>cs. interpolates cs [(1, 5), (2, 7)])
           \<and> (\<forall>cs. interpolates cs [(1, 5), (2, 7)] \<longrightarrow> v = polyValue cs 0 mod PRIME_MODULUS))"
  by (rule conjI [OF parse_two_shares conjI [OF unitDiffs_1_2
        reconstructSecret_interpolated_value [OF parse_two_shares unitDiffs_1_2]]])


section \<open>Splitting and reconstructing\<close>

lemma toString16_no_dash: "0 \<le> v \<Longrightarrow> CHR ''-'' \<notin> set (toString16 v)"
  using hexDigits_isHexDigit [of "nat v"] isHexDigit_not_dash
  by (auto simp: toString16_def list_all_iff)

lemma parsePoint_share:
  assumes "0 \<le> x" and "0 \<le> y"
  shows "parsePoint \<lparr>share_id = i, data = toString16 x @ ''-'' @ toString16 y\<rparr> = Inr (x, y)"
proof -
  have "split CHR ''-'' (toString16 x @ CHR ''-'' # toString16 y) = [toString16 x, toString16 y]"
    using assms by (simp add: split_at_sep split_no_sep toString16_no_dash)
  then show ?thesis
    using assms by (simp add: parsePoint_def BigInt_0x_toString16)
qed

lemma mapE_map: "\<forall>a \<in> set as. f a = Inr (g a) \<Longrightarrow> mapE f as = Inr (map g as)"
  by (induction as) simp_all

lemma PRIME_MODULUS_above_key: "(2::int) ^ 256 < PRIME_MODULUS"
  by (simp add: PRIME_MODULUS_def)

lemma selection_round_trip:
  fixes coeffs :: "int list" and n :: int
  defines "sh \<equiv> \<lambda>x. \<lparr>share_id = x, data = toString16 x @ ''-''
                        @ toString16 (polyValue coeffs x mod PRIME_MODULUS)\<rparr>"
  assumes n: "n \<le> 10"
    and sel: "distinct sel" "set sel \<subseteq> set (map sh [1..n])" "length sel = length coeffs"
    and secret: "coeffs \<noteq> []" "0 \<le> hd coeffs" "hd coeffs < 2 ^ 256"
  shows "\<exists>hex. reconstructSecret sel = Inr hex \<and> BigInt_0x hex = Inr (hd coeffs)"
proof -
  let ?pt = "\<lambda>e. (share_id e, polyValue coeffs (share_id e) mod PRIME_MODULUS)"
  let ?points = "map ?pt sel"
  have member: "1 \<le> share_id e \<and> share_id e \<le> n \<and> e = sh (share_id e)" if "e \<in> set sel" for e
  proof -
    from that sel(2) obtain x where "x \<in> {1..n}" and "e = sh x"
      by auto
    then show ?thesis
      by (simp add: sh_def)
  qed
  have parse: "mapE parsePoint sel = Inr ?points"
  proof (rule mapE_map, rule ballI)
    fix e
    assume e: "e \<in> set sel"
    have "parsePoint (sh (share_id e)) = Inr (?pt e)"
      unfolding sh_def using member [OF e] PRIME_MODULUS_pos
      by (intro parsePoint_share) simp_all
    then show "parsePoint e = Inr (?pt e)"
      using member [OF e] by simp
  qed
  have units: "unitDiffs (map fst ?points)"
    unfolding unitDiffs_def
  proof (intro allI impI)
    fix i j
    assume i: "i < length (map fst ?points)" and j: "j < length (map fst ?points)" and "i \<noteq> j"
    then have "sel ! i \<noteq> sel ! j"
      using sel(1) by (simp add: nth_eq_iff_index_eq)
    moreover have "sel ! i \<in> set sel" "sel ! j \<in> set sel"
      using i j by simp_all
    ultimately have "share_id (sel ! i) \<noteq> share_id (sel ! j)"
      using member by metis
    moreover have "1 \<le> share_id (sel ! i)" "share_id (sel ! i) \<le> 10"
      "1 \<le> share_id (sel ! j)" "share_id (sel ! j) \<le> 10"
      using member [OF \<open>sel ! i \<in> set sel\<close>] member [OF \<open>sel ! j \<in> set sel\<close>] n by simp_all
    ultimately have "coprime (share_id (sel ! i) - share_id (sel ! j)) PRIME_MODULUS"
      by (intro PRIME_MODULUS_diff_coprime)
    then show "coprime (map fst ?points ! i - map fst ?points ! j) PRIME_MODULUS"
      using i j by simp
  qed
  have fit: "interpolates coeffs ?points"
    unfolding interpolates_def using sel(3) by simp
  have nonneg: "\<forall>p \<in> set ?points. 0 \<le> fst p"
  proof
    fix p
    assume "p \<in> set ?points"
    then obtain e where "e \<in> set sel" and "p = ?pt e"
      by auto
    then show "0 \<le> fst p"
      using member [of e] by simp
  qed
  obtain c cs where coeffs: "coeffs = c # cs"
    using secret(1) by (cases coeffs) auto
  have "polyValue coeffs 0 mod PRIME_MODULUS = hd coeffs"
    using secret(2,3) PRIME_MODULUS_above_key unfolding coeffs by (simp add: polyValue_Cons)
  then have "interpolateAt ?points = Inr (hd coeffs)"
    using interpolateAt_polynomial [OF nonneg units fit] by simp
  then have "reconstructSecret sel = Inr (padEven (toString16 (hd coeffs)))"
    using parse by (simp add: reconstructSecret_interpolateAt)
  then show ?thesis
    using padEven_props(2) [OF secret(2)] by simp
qed

text \<open>
  Claim C1.  For a secret text that reads as \<open>s < 2^256\<close>, for \<open>2 \<le> k \<le> n \<le> 10\<close> and for
  every outcome \<open>rng\<close> of the random source, \<open>splitSecret\<close> returns shares such that
  \<open>reconstructSecret\<close>, applied to any \<open>k\<close> different ones of them in any order, returns
  a text that reads back as \<open>s\<close>.
\<close>

theorem splitSecret_reconstructSecret_round_trip:
  assumes "BigInt_0x secretHex = Inr s" and "s < 2 ^ 256"
    and "2 \<le> k" and "k \<le> n" and "n \<le> 10"
  shows "\<exists>shares. splitSecret rng secretHex n k = Inr shares
          \<and> (\<forall>sel. distinct sel \<and> set sel \<subseteq> set shares \<and> length sel = nat k
                \<longrightarrow> (\<exists>hex. reconstructSecret sel = Inr hex \<and> BigInt_0x hex = Inr s))"
proof -
  from splitSecret_form [OF assms(1), of k rng n]
  obtain randoms where len: "length randoms = nat (k - 1)"
    and split: "splitSecret rng secretHex n k
              = Inr (map (\<lambda>x. \<lparr>share_id = x,
                               data = toString16 x @ ''-''
                                      @ toString16 (polyValue (s # randoms) x mod PRIME_MODULUS)\<rparr>) [1..n])"
    by blast
  have "\<exists>hex. reconstructSecret sel = Inr hex \<and> BigInt_0x hex = Inr s"
    if "distinct sel"
      and "set sel \<subseteq> set (map (\<lambda>x. \<lparr>share_id = x,
                               data = toString16 x @ ''-''
                                      @ toString16 (polyValue (s # randoms) x mod PRIME_MODULUS)\<rparr>) [1..n])"
      and "length sel = nat k" for sel
    using selection_round_trip [of n sel "s # randoms"] that assms len BigInt_0x_nonneg [OF assms(1)]
    by simp
  then show ?thesis
    unfolding split by blast
qed


theorem splitSecret_reconstructSecret_round_trip_witness:
  "BigInt_0x ''2a'' = Inr 42 \<and> (42::int) < 2 ^ 256 \<and> (2::int) \<le> 2 \<and> (2::int) \<le> 3 \<and> (3::int) \<le> 10
   \<and> (\<exists>shares hex. splitSecret (\<lambda>c i. 0) ''2a'' 3 2 = Inr shares
          \<and> length shares = 3
          \<and> reconstructSecret [shares ! 2, shares ! 0] = Inr hex
          \<and> BigInt_0x hex = Inr 42)"
proof -
  have h: "(42::int) < 2 ^ 256" "(2::int) \<le> 2" "(2::int) \<le> 3" "(3::int) \<le> 10"
    by simp_all
  from splitSecret_reconstructSecret_round_trip [OF BigInt_0x_2a h, of "\<lambda>c i. 0"]
  obtain shares where split: "splitSecret (\<lambda>c i. 0) ''2a'' 3 2 = Inr shares"
    and all: "\<And>sel. distinct sel \<and> set sel \<subseteq> set shares \<and> length sel = nat 2
                \<Longrightarrow> \<exists>hex. reconstructSecret sel = Inr hex \<and> BigInt_0x hex = Inr 42"
    by blast
  from splitSecret_form [OF BigInt_0x_2a, of 2 "\<lambda>c i. 0" 3] split
  obtain randoms where shares: "shares = map (\<lambda>x. \<lparr>share_id = x,
                               data = toString16 x @ ''-''
                                      @ toString16 (polyValue (42 # randoms) x mod PRIME_MODULUS)\<rparr>) [1..3]"
    by auto
  have len: "length shares = 3"
    by (simp add: shares)
  have "share_id (shares ! 2) = 3" "share_id (shares ! 0) = 1"
    by (simp_all add: shares)
  then have "shares ! 2 \<noteq> shares ! 0"
    by auto
  then have "distinct [shares ! 2, shares ! 0] \<and> set [shares ! 2, shares ! 0] \<subseteq> set shares
             \<and> length [shares ! 2, shares ! 0] = nat 2"
    using len by simp
  then obtain hex where "reconstructSecret [shares ! 2, shares ! 0] = Inr hex" "BigInt_0x hex = Inr 42"
    using all by blast
  with split len BigInt_0x_2a h show ?thesis
    by blast
qed

section \<open>One share fewer than the threshold\<close>

text \<open>
  What \<open>reconstructSecret\<close> returns on \<open>k - 1\<close> of the shares: the interpolation through
  \<open>k - 1\<close> points of a polynomial of degree \<open>k - 1\<close> misses the constant term by its
  leading coefficient times the product of the x values (up to the sign), so the secret
  comes back exactly when the last random coefficient is zero.
\<close>

lemma polyValue_snoc: "polyValue (cs @ [a]) x = polyValue cs x + a * x ^ length cs"
proof -
  have "(\<Sum>i<length cs. (cs @ [a]) ! i * x ^ i) = (\<Sum>i<length cs. cs ! i * x ^ i)"
    by (intro sum.cong) (simp_all add: nth_append)
  then show ?thesis
    by (simp add: polyValue_def)
qed

lemma polyDeg_power_neg: "polyDeg m (\<lambda>x. (- x) ^ m)"
proof (induction m)
  case 0
  then show ?case
    by (simp add: polyDeg_const)
next
  case (Suc m)
  have "polyDeg (Suc m) (\<lambda>x. (- 1) * (x * (- x) ^ m))"
    by (intro polyDeg_cmult polyDeg_xmult Suc)
  then show ?case
    by simp
qed

lemma polyDeg_monic_difference:
  assumes "xs \<noteq> []"
  shows "polyDeg (length xs - 1) (\<lambda>x. (\<Prod>r \<leftarrow> xs. (r - x)) - (- x) ^ length xs)"
  using assms
proof (induction xs rule: list_nonempty_induct)
  case (single r)
  then show ?case
    by (simp add: polyDeg_const)
next
  case (cons r rs)
  have "polyDeg (Suc (length rs - 1))
          (\<lambda>x. (r - x) * ((\<Prod>r \<leftarrow> rs. (r - x)) - (- x) ^ length rs))"
    using cons.IH by (rule polyDeg_linear)
  then have "polyDeg (length rs)
          (\<lambda>x. (r - x) * ((\<Prod>r \<leftarrow> rs. (r - x)) - (- x) ^ length rs))"
    using cons.hyps by simp
  moreover have "polyDeg (length rs) (\<lambda>x. r * (- x) ^ length rs)"
    by (intro polyDeg_cmult polyDeg_power_neg)
  ultimately have "polyDeg (length rs)
          (\<lambda>x. (r - x) * ((\<Prod>r \<leftarrow> rs. (r - x)) - (- x) ^ length rs) + r * (- x) ^ length rs)"
    by (rule polyDeg_add)
  moreover have "(r - x) * ((\<Prod>r \<leftarrow> rs. (r - x)) - (- x) ^ length rs) + r * (- x) ^ length rs
                 = (\<Prod>r \<leftarrow> r # rs. (r - x)) - (- x) ^ length (r # rs)" for x
    by (simp add: algebra_simps)
  ultimately show ?case
    by simp
qed

lemma polyDeg_coefficients:
  assumes "polyDeg m g"
  shows "\<exists>cs. length cs = Suc m \<and> (\<forall>x. polyValue cs x = g x)"
proof -
  from assms obtain c where c: "\<And>x. g x = (\<Sum>i\<le>m. c i * x ^ i)"
    unfolding polyDeg_def by blast
  have "polyValue (map c [0..<Suc m]) x = g x" for x
  proof -
    have "polyValue (map c [0..<Suc m]) x = (\<Sum>i<Suc m. c i * x ^ i)"
      unfolding polyValue_def by (intro sum.cong) (simp_all del: upt_Suc)
    then show ?thesis
      by (simp only: c lessThan_Suc_atMost)
  qed
  then show ?thesis
    by (intro exI [of _ "map c [0..<Suc m]"]) simp
qed


lemma PRIME_MODULUS_coprime_upto_10:
  assumes "1 \<le> d" and "d \<le> 10"
  shows "coprime d PRIME_MODULUS"
proof (cases "d < 10")
  case True
  with assms show ?thesis
    by (intro PRIME_MODULUS_small_coprime) simp_all
next
  case False
  with assms have d: "d = 2 * 5"
    by simp
  have "coprime 2 PRIME_MODULUS" "coprime 5 PRIME_MODULUS"
    by (intro PRIME_MODULUS_small_coprime; simp)+
  then show ?thesis
    unfolding d by (simp only: coprime_mult_left_iff)
qed

lemma selection_points:
  fixes coeffs :: "int list" and n :: int
  defines "sh \<equiv> \<lambda>x. \<lparr>share_id = x, data = toString16 x @ ''-''
                        @ toString16 (polyValue coeffs x mod PRIME_MODULUS)\<rparr>"
  defines "pt \<equiv> \<lambda>e :: Share. (share_id e, polyValue coeffs (share_id e) mod PRIME_MODULUS)"
  assumes n: "n \<le> 10"
    and sel: "distinct sel" "set sel \<subseteq> set (map sh [1..n])"
  shows "mapE parsePoint sel = Inr (map pt sel)"
    and "unitDiffs (map fst (map pt sel))"
    and "\<forall>p \<in> set (map pt sel). 1 \<le> fst p \<and> fst p \<le> 10"
proof -
  have member: "1 \<le> share_id e \<and> share_id e \<le> n \<and> e = sh (share_id e)" if "e \<in> set sel" for e
  proof -
    from that sel(2) obtain x where "x \<in> {1..n}" and "e = sh x"
      by auto
    then show ?thesis
      by (simp add: sh_def)
  qed
  show "mapE parsePoint sel = Inr (map pt sel)"
  proof (rule mapE_map, rule ballI)
    fix e
    assume e: "e \<in> set sel"
    have "parsePoint (sh (share_id e)) = Inr (pt e)"
      unfolding sh_def pt_def using member [OF e] PRIME_MODULUS_pos
      by (intro parsePoint_share) simp_all
    then show "parsePoint e = Inr (pt e)"
      using member [OF e] by simp
  qed
  show "unitDiffs (map fst (map pt sel))"
    unfolding unitDiffs_def
  proof (intro allI impI)
    fix i j
    assume i: "i < length (map fst (map pt sel))" and j: "j < length (map fst (map pt sel))"
      and "i \<noteq> j"
    then have "sel ! i \<noteq> sel ! j"
      using sel(1) by (simp add: nth_eq_iff_index_eq)
    moreover have mi: "sel ! i \<in> set sel" and mj: "sel ! j \<in> set sel"
      using i j by simp_all
    ultimately have "share_id (sel ! i) \<noteq> share_id (sel ! j)"
      using member by metis
    moreover have "1 \<le> share_id (sel ! i)" "share_id (sel ! i) \<le> 10"
      "1 \<le> share_id (sel ! j)" "share_id (sel ! j) \<le> 10"
      using member [OF mi] member [OF mj] n by simp_all
    ultimately have "coprime (share_id (sel ! i) - share_id (sel ! j)) PRIME_MODULUS"
      by (intro PRIME_MODULUS_diff_coprime)
    then show "coprime (map fst (map pt sel) ! i - map fst (map pt sel) ! j) PRIME_MODULUS"
      using i j by (simp add: pt_def)
  qed
  show "\<forall>p \<in> set (map pt sel). 1 \<le> fst p \<and> fst p \<le> 10"
  proof
    fix p
    assume "p \<in> set (map pt sel)"
    then obtain e where "e \<in> set sel" and "p = pt e"
      by auto
    then show "1 \<le> fst p \<and> fst p \<le> 10"
      using member [of e] n by (simp add: pt_def)
  qed
qed

lemma sub_threshold_value:
  fixes coeffs :: "int list" and n :: int
  defines "sh \<equiv> \<lambda>x. \<lparr>share_id = x, data = toString16 x @ ''-''
                        @ toString16 (polyValue coeffs x mod PRIME_MODULUS)\<rparr>"
  assumes n: "n \<le> 10"
    and sel: "distinct sel" "set sel \<subseteq> set (map sh [1..n])" "Suc (length sel) = length coeffs"
      "sel \<noteq> []"
    and secret: "0 \<le> hd coeffs" "hd coeffs < PRIME_MODULUS"
    and top: "0 \<le> last coeffs" "last coeffs < PRIME_MODULUS"
  shows "\<exists>hex v. reconstructSecret sel = Inr hex \<and> BigInt_0x hex = Inr v
           \<and> (v = hd coeffs \<longleftrightarrow> last coeffs = 0)"
proof -
  define pt where "pt = (\<lambda>e :: Share. (share_id e, polyValue coeffs (share_id e) mod PRIME_MODULUS))"
  define points where "points = map pt sel"
  define xs where "xs = map share_id sel"
  define m where "m = length sel"
  define a where "a = last coeffs"
  define low where "low = butlast coeffs"
  define c where "c = a * (- 1) ^ m"
  have parse: "mapE parsePoint sel = Inr points"
    and units: "unitDiffs (map fst points)"
    and small: "\<forall>p \<in> set points. 1 \<le> fst p \<and> fst p \<le> 10"
    using selection_points [OF n sel(1), of coeffs] sel(2)
    unfolding sh_def pt_def points_def by blast+
  have nonneg: "\<forall>p \<in> set points. 0 \<le> fst p"
    using small by auto
  have coeffs: "coeffs = low @ [a]" and low_len: "length low = m"
    using sel(3) unfolding low_def a_def m_def
    by (cases coeffs rule: rev_cases; simp)+
  have xs_ne: "xs \<noteq> []" and xs_len: "length xs = m"
    using sel(4) by (simp_all add: xs_def m_def)
  have m_pos: "0 < m"
    using sel(4) by (simp add: m_def)
  define g where "g x = polyValue low x - c * ((\<Prod>r \<leftarrow> xs. (r - x)) - (- x) ^ m)" for x
  have g_alt: "g x = polyValue coeffs x - c * (\<Prod>r \<leftarrow> xs. (r - x))" for x
  proof -
    have "(- 1) ^ m * (- x) ^ m = ((- 1) * (- x)) ^ m"
      by (simp only: power_mult_distrib)
    then have "(- 1) ^ m * (- x) ^ m = x ^ m"
      by simp
    then have "c * (- x) ^ m = a * x ^ m"
      unfolding c_def by (simp only: mult.assoc)
    then show ?thesis
      unfolding g_def coeffs by (simp add: polyValue_snoc low_len algebra_simps)
  qed
  have "polyDeg (m - 1) (polyValue low)"
    using low_len m_pos by (intro polyDeg_polyValue) simp
  moreover have "polyDeg (m - 1) (\<lambda>x. c * ((\<Prod>r \<leftarrow> xs. (r - x)) - (- x) ^ m))"
    using polyDeg_monic_difference [OF xs_ne] unfolding xs_len by (rule polyDeg_cmult)
  ultimately have "polyDeg (m - 1) g"
    unfolding g_def by (rule polyDeg_diff)
  then obtain cs where cs_len: "length cs = Suc (m - 1)" and cs: "\<And>x. polyValue cs x = g x"
    using polyDeg_coefficients by blast
  have node: "g (fst p) = polyValue coeffs (fst p)" if "p \<in> set points" for p
  proof -
    have "fst p \<in> set xs"
      using that unfolding points_def xs_def pt_def by auto
    then have "(\<Prod>r \<leftarrow> xs. (r - fst p)) = 0"
      by (simp add: prod_list_zero_iff)
    then show ?thesis
      by (simp add: g_alt)
  qed
  have fit: "interpolates cs points"
    unfolding interpolates_def
  proof (intro conjI ballI)
    show "length cs \<le> length points"
      using cs_len m_pos by (simp add: points_def m_def)
  next
    fix p
    assume p: "p \<in> set points"
    then have "snd p = polyValue coeffs (fst p) mod PRIME_MODULUS"
      unfolding points_def pt_def by auto
    then show "polyValue cs (fst p) mod PRIME_MODULUS = snd p mod PRIME_MODULUS"
      using node [OF p] by (simp add: cs)
  qed
  define v where "v = polyValue cs 0 mod PRIME_MODULUS"
  have "interpolateAt points = Inr v"
    unfolding v_def using nonneg units fit by (rule interpolateAt_polynomial)
  then have result: "reconstructSecret sel = Inr (padEven (toString16 v))"
    using parse by (simp add: reconstructSecret_interpolateAt)
  have v_nonneg: "0 \<le> v"
    using PRIME_MODULUS_pos by (simp add: v_def)
  obtain s rest where cf: "coeffs = s # rest"
    using sel(3) by (cases coeffs) auto
  have v_eq: "v = (hd coeffs - c * prod_list xs) mod PRIME_MODULUS"
    unfolding v_def cs g_alt by (simp add: cf polyValue_Cons)
  have cop: "coprime ((- 1) ^ m * prod_list xs) PRIME_MODULUS"
  proof -
    have "coprime r PRIME_MODULUS" if "r \<in> set xs" for r
    proof -
      from that obtain e where "e \<in> set sel" and "r = share_id e"
        unfolding xs_def by auto
      then have "pt e \<in> set points" and "r = fst (pt e)"
        unfolding points_def pt_def by simp_all
      then obtain p where "p \<in> set points" and "r = fst p"
        by blast
      then show ?thesis
        using small by (intro PRIME_MODULUS_coprime_upto_10) auto
    qed
    then have "coprime (prod_list xs) PRIME_MODULUS"
      by (induction xs) simp_all
    moreover have "coprime ((- 1) ^ m) PRIME_MODULUS"
      by (cases "even m") simp_all
    ultimately show ?thesis
      by (simp only: coprime_mult_left_iff)
  qed
  have "v = hd coeffs \<longleftrightarrow> (hd coeffs - c * prod_list xs) mod PRIME_MODULUS = hd coeffs mod PRIME_MODULUS"
    using secret by (simp add: v_eq)
  also have "\<dots> \<longleftrightarrow> PRIME_MODULUS dvd (hd coeffs - c * prod_list xs) - hd coeffs"
    by (simp only: mod_eq_dvd_iff)
  also have "\<dots> \<longleftrightarrow> PRIME_MODULUS dvd a * ((- 1) ^ m * prod_list xs)"
    by (simp add: c_def mult.assoc)
  also have "\<dots> \<longleftrightarrow> PRIME_MODULUS dvd a"
    using cop by (simp add: coprime_dvd_mult_left_iff coprime_commute)
  also have "\<dots> \<longleftrightarrow> a = 0"
    using top unfolding a_def by (auto simp: zdvd_not_zless dest: zdvd_imp_le)
  finally have "v = hd coeffs \<longleftrightarrow> last coeffs = 0"
    by (simp add: a_def)
  then show ?thesis
    using result padEven_props(2) [OF v_nonneg] by blast
qed


lemma mapE_last:
  assumes "mapE f as = Inr bs" and "as \<noteq> []"
  shows "f (last as) = Inr (last bs)"
proof -
  have eq: "map f as = map Inr bs"
    using assms(1) by (rule mapE_Inr_map)
  then have "length as = length bs"
    by (metis length_map)
  with assms(2) have "bs \<noteq> []"
    by auto
  have "last (map f as) = last (map Inr bs)"
    by (simp only: eq)
  with assms(2) \<open>bs \<noteq> []\<close> show ?thesis
    by (simp add: last_map)
qed

lemma splitSecret_last_random:
  assumes "BigInt_0x secretHex = Inr secret" and "2 \<le> k"
  shows "\<exists>randoms. length randoms = nat (k - 1)
          \<and> (\<forall>c \<in> set randoms. 0 \<le> c \<and> c < PRIME_MODULUS)
          \<and> randomBigInt (rng (nat (k - 2))) = Inr (last randoms)
          \<and> splitSecret rng secretHex n k
              = Inr (map (\<lambda>x. \<lparr>share_id = x,
                               data = toString16 x @ ''-''
                                      @ toString16 (polyValue (secret # randoms) x mod PRIME_MODULUS)\<rparr>) [1..n])"
proof -
  from splitSecret_form [OF assms(1), of k rng n]
  obtain randoms where len: "length randoms = nat (k - 1)"
    and range: "\<forall>c \<in> set randoms. 0 \<le> c \<and> c < PRIME_MODULUS"
    and r: "mapE (\<lambda>i. randomBigInt (rng (nat (i - 1)))) [1..k - 1] = Inr randoms"
    and split: "splitSecret rng secretHex n k
              = Inr (map (\<lambda>x. \<lparr>share_id = x,
                               data = toString16 x @ ''-''
                                      @ toString16 (polyValue (secret # randoms) x mod PRIME_MODULUS)\<rparr>) [1..n])"
    by blast
  have ne: "[1..k - 1] \<noteq> []"
    using assms(2) by simp
  have "last [1..k - 1] = k - 1"
    using assms(2) upto_rec2 [of 1 "k - 1"] by simp
  then have "randomBigInt (rng (nat (k - 1 - 1))) = Inr (last randoms)"
    using mapE_last [OF r ne] by simp
  then have "randomBigInt (rng (nat (k - 2))) = Inr (last randoms)"
    by (simp add: algebra_simps)
  with len range split show ?thesis
    by blast
qed

text \<open>
  For the shares of \<open>splitSecret\<close> with \<open>2 \<le> k \<le> n \<le> 10\<close>: any \<open>k - 1\<close> different shares
  make \<open>reconstructSecret\<close> return a text that reads as some \<open>v\<close>, and \<open>v\<close> is the secret
  if and only if the last call of \<open>randomBigInt\<close> returned 0.
\<close>

lemma splitSecret_sub_threshold:
  assumes "BigInt_0x secretHex = Inr s" and "s < 2 ^ 256"
    and "2 \<le> k" and "k \<le> n" and "n \<le> 10"
  shows "\<exists>shares a. splitSecret rng secretHex n k = Inr shares
          \<and> randomBigInt (rng (nat (k - 2))) = Inr a
          \<and> (\<forall>sel. distinct sel \<and> set sel \<subseteq> set shares \<and> length sel = nat (k - 1)
                \<longrightarrow> (\<exists>hex v. reconstructSecret sel = Inr hex \<and> BigInt_0x hex = Inr v
                        \<and> (v = s \<longleftrightarrow> a = 0)))"
proof -
  from splitSecret_last_random [OF assms(1,3), of rng n]
  obtain randoms where len: "length randoms = nat (k - 1)"
    and range: "\<forall>c \<in> set randoms. 0 \<le> c \<and> c < PRIME_MODULUS"
    and last: "randomBigInt (rng (nat (k - 2))) = Inr (last randoms)"
    and split: "splitSecret rng secretHex n k
              = Inr (map (\<lambda>x. \<lparr>share_id = x,
                               data = toString16 x @ ''-''
                                      @ toString16 (polyValue (s # randoms) x mod PRIME_MODULUS)\<rparr>) [1..n])"
    by blast
  have ne: "randoms \<noteq> []"
    using len assms(3) by auto
  then have top: "0 \<le> last (s # randoms)" "last (s # randoms) < PRIME_MODULUS"
    using range last_in_set [OF ne] by simp_all
  have sec: "0 \<le> hd (s # randoms)" "hd (s # randoms) < PRIME_MODULUS"
    using BigInt_0x_nonneg [OF assms(1)] assms(2) PRIME_MODULUS_above_key by simp_all
  have "\<exists>hex v. reconstructSecret sel = Inr hex \<and> BigInt_0x hex = Inr v
                        \<and> (v = s \<longleftrightarrow> last randoms = 0)"
    if "distinct sel"
      and "set sel \<subseteq> set (map (\<lambda>x. \<lparr>share_id = x,
                               data = toString16 x @ ''-''
                                      @ toString16 (polyValue (s # randoms) x mod PRIME_MODULUS)\<rparr>) [1..n])"
      and "length sel = nat (k - 1)" for sel
  proof -
    have "Suc (length sel) = length (s # randoms)" "sel \<noteq> []"
      using that(3) len assms(3) by auto
    from sub_threshold_value [OF assms(5) that(1,2) this sec top] ne show ?thesis
      by simp
  qed
  then show ?thesis
    unfolding split using last by blast
qed

section \<open>Malformed share texts\<close>

text \<open>
  \<open>parsePoint\<close> succeeds on exactly the texts of \<open>parsableShareText\<close>, and these
  include every text of the format of the interface.
\<close>

lemma hexLiteral_BigInt_0x:
  assumes "hexLiteral h"
  shows "\<exists>v. BigInt_0x h = Inr v"
proof -
  let ?ds = "takeWhile isHexDigit h" and ?ws = "dropWhile isHexDigit h"
  from assms have ds: "?ds \<noteq> []" and ws: "list_all isWhiteSpace ?ws"
    by (simp_all add: hexLiteral_def)
  have all: "list_all isHexDigit ?ds"
    by (simp add: list_all_iff) (meson set_takeWhileD)
  have "trimEnd (?ds @ ?ws) = ?ds"
    using ws all by (simp only: trimEnd_append_spaces trimEnd_hex)
  then have "trimEnd h = ?ds"
    by simp
  with ds all show ?thesis
    by (simp add: BigInt_0x_def)
qed

lemma parsePoint_accepts:
  assumes "parsableShareText (data s)"
  shows "\<exists>p. parsePoint s = Inr p"
proof -
  from assms obtain xHex yHex more where parts: "split CHR ''-'' (data s) = xHex # yHex # more"
    and lit: "hexLiteral xHex" "hexLiteral yHex"
    by (auto simp: parsableShareText_def split: list.splits)
  from lit obtain x y where "BigInt_0x xHex = Inr x" "BigInt_0x yHex = Inr y"
    using hexLiteral_BigInt_0x by blast
  with parts show ?thesis
    by (simp add: parsePoint_def)
qed

lemma parsePoint_iff: "(\<exists>p. parsePoint s = Inr p) = parsableShareText (data s)"
  using parsePoint_accepts parsePoint_parsable by blast

lemma lowerHex_hexLiteral:
  assumes "x \<noteq> []" and "list_all isLowerHexDigit x"
  shows "hexLiteral x" and "CHR ''-'' \<notin> set x"
proof -
  have all: "\<forall>c \<in> set x. isHexDigit c"
    using assms(2) lowerHex_isHexDigit by (auto simp: list_all_iff)
  then have tw: "takeWhile isHexDigit x = x" "dropWhile isHexDigit x = []"
    by simp_all
  show "hexLiteral x"
    using assms(1) by (simp add: hexLiteral_def tw)
  show "CHR ''-'' \<notin> set x"
    using all isHexDigit_not_dash by blast
qed

lemma specShareText_parsable:
  assumes "specShareText d"
  shows "parsableShareText d"
proof -
  let ?x = "takeWhile (\<lambda>c. c \<noteq> CHR ''-'') d" and ?rest = "dropWhile (\<lambda>c. c \<noteq> CHR ''-'') d"
  from assms have x: "?x \<noteq> []" "list_all isLowerHexDigit ?x"
    and rest: "?rest \<noteq> []" and y: "tl ?rest \<noteq> []" "list_all isLowerHexDigit (tl ?rest)"
    by (simp_all add: specShareText_def Let_def)
  from rest have "hd ?rest = CHR ''-''"
    using hd_dropWhile [of "\<lambda>c. c \<noteq> CHR ''-''" d] by auto
  with rest have "?rest = CHR ''-'' # tl ?rest"
    by (cases ?rest) auto
  then have d: "d = ?x @ CHR ''-'' # tl ?rest"
    by (metis takeWhile_dropWhile_id)
  have "split CHR ''-'' (?x @ CHR ''-'' # tl ?rest) = ?x # split CHR ''-'' (tl ?rest)"
    using lowerHex_hexLiteral(2) [OF x] by (rule split_at_sep)
  also have "split CHR ''-'' (tl ?rest) = [tl ?rest]"
    using lowerHex_hexLiteral(2) [OF y] by (rule split_no_sep)
  finally have "split CHR ''-'' d = [?x, tl ?rest]"
    using d by simp
  then show ?thesis
    using lowerHex_hexLiteral(1) [OF x] lowerHex_hexLiteral(1) [OF y]
    by (simp add: parsableShareText_def)
qed

lemma interpolateAt_error: "interpolateAt points = Inl e \<Longrightarrow> e = RangeError"
  using secret_fold_Inl [of points "length points"]
  unfolding secret_fold_interpolateAt [symmetric] by (auto split: sum.splits)

lemma parse_outside_format:
  "mapE parsePoint [\<lparr>share_id = 1, data = ''1-5-zz''\<rparr>, \<lparr>share_id = 2, data = ''2 -7 ''\<rparr>]
   = Inr [(1, 5), (2, 7)]"
  by (simp add: parsePoint_def BigInt_0x_def trimEnd_def isWhiteSpace_def isHexDigit_def
      hexValue_def hexDigitValue_def)

lemma interpolates_3_2: "interpolates [3, 2] [(1, 5), (2, 7)]"
  by (simp add: interpolates_def polyValue_def lessThan_Suc numeral_2_eq_2)

lemma toString16_3: "padEven (toString16 3) = ''03''"
proof -
  have "hexDigit 3 = CHR ''3''"
    by (rule of_char_eqI [where ?'a = nat]) (simp add: hexDigit_def)
  then show ?thesis
    by (simp add: toString16_def hexDigits.simps padEven_def)
qed

text \<open>
  Claim C4 fails.  Neither \<open>1-5-zz\<close> (a third part that is no number) nor \<open>2 -7 \<close>
  (white space after the digits) is two hexadecimal integers joined by the delimiter,
  yet \<open>reconstructSecret\<close> reads the points (1, 5) and (2, 7) from them and returns
  the text \<open>03\<close>, the value at 0 of the line through these points.
\<close>

theorem reconstructSecret_outside_format_counterexample:
  "\<not> specShareText ''1-5-zz'' \<and> \<not> specShareText ''2 -7 ''
   \<and> reconstructSecret [\<lparr>share_id = 1, data = ''1-5-zz''\<rparr>, \<lparr>share_id = 2, data = ''2 -7 ''\<rparr>]
       = Inr ''03''"
proof -
  have "\<forall>p \<in> set [(1::int, 5::int), (2, 7)]. 0 \<le> fst p"
    by simp
  then have "interpolateAt [(1, 5), (2, 7)] = Inr (polyValue [3, 2] 0 mod PRIME_MODULUS)"
    using unitDiffs_1_2 interpolates_3_2 by (rule interpolateAt_polynomial)
  moreover have "polyValue [3, 2] 0 mod PRIME_MODULUS = 3"
    by (simp add: polyValue_def lessThan_Suc numeral_2_eq_2 PRIME_MODULUS_def)
  ultimately have "reconstructSecret [\<lparr>share_id = 1, data = ''1-5-zz''\<rparr>, \<lparr>share_id = 2, data = ''2 -7 ''\<rparr>]
       = Inr ''03''"
    by (simp only: reconstructSecret_interpolateAt parse_outside_format sum.case toString16_3)
  moreover have "\<not> specShareText ''1-5-zz''" "\<not> specShareText ''2 -7 ''"
    by (simp_all add: specShareText_def isLowerHexDigit_def)
  ultimately show ?thesis
    by simp
qed

text \<open>
  Claim C4, as amended.  \<open>reconstructSecret\<close> throws the \<open>SyntaxError\<close> of \<open>BigInt\<close>
  exactly when the list holds a share whose text the parser does not accept (such as
  \<open>zz-11\<close>): all shares are parsed before the interpolation starts, so no result
  comes back, no other exception comes first, and the interpolation itself never
  throws this error.
\<close>

theorem reconstructSecret_malformed_share:
  "(reconstructSecret shares = Inl SyntaxError)
   = (\<exists>s \<in> set shares. \<not> parsableShareText (data s))"
proof
  assume err: "reconstructSecret shares = Inl SyntaxError"
  show "\<exists>s \<in> set shares. \<not> parsableShareText (data s)"
  proof (rule ccontr)
    assume "\<not> (\<exists>s \<in> set shares. \<not> parsableShareText (data s))"
    then have "\<forall>s \<in> set shares. \<not> isl (parsePoint s)"
      using parsePoint_accepts by fastforce
    then have "mapE parsePoint shares = Inr (map (\<lambda>s. projr (parsePoint s)) shares)"
      by (rule mapE_total)
    with err show False
      by (auto simp: reconstructSecret_interpolateAt split: sum.splits dest: interpolateAt_error)
  qed
next
  assume "\<exists>s \<in> set shares. \<not> parsableShareText (data s)"
  then obtain s where s: "s \<in> set shares" "\<not> parsableShareText (data s)"
    by blast
  show "reconstructSecret shares = Inl SyntaxError"
  proof (cases "mapE parsePoint shares")
    case (Inl e)
    then have "e = SyntaxError"
      using mapE_error parsePoint_error by blast
    with Inl show ?thesis
      by (simp add: reconstructSecret_def)
  next
    case (Inr points)
    from mapE_Inr_all [OF Inr s(1)] obtain p where "parsePoint s = Inr p"
      by auto
    with s(2) show ?thesis
      using parsePoint_parsable by blast
  qed
qed

theorem reconstructSecret_malformed_share_witness:
  "\<not> parsableShareText ''zz-11''
   \<and> reconstructSecret [\<lparr>share_id = 1, data = ''1-5''\<rparr>, \<lparr>share_id = 2, data = ''zz-11''\<rparr>]
       = Inl SyntaxError
   \<and> parsableShareText ''1-5-zz'' \<and> parsableShareText ''2 -7 ''
   \<and> reconstructSecret [\<lparr>share_id = 1, data = ''1-5-zz''\<rparr>, \<lparr>share_id = 2, data = ''2 -7 ''\<rparr>]
       \<noteq> Inl SyntaxError"
proof -
  have w: "\<not> parsableShareText ''zz-11''"
    by (simp add: parsableShareText_def hexLiteral_def isHexDigit_def)
  have a: "parsableShareText ''1-5-zz''" "parsableShareText ''2 -7 ''"
    by (simp_all add: parsableShareText_def hexLiteral_def isHexDigit_def isWhiteSpace_def)
  have "parsableShareText ''1-5''"
    by (simp add: parsableShareText_def hexLiteral_def isHexDigit_def)
  with w a
    reconstructSecret_malformed_share [of "[\<lparr>share_id = 1, data = ''1-5''\<rparr>, \<lparr>share_id = 2, data = ''zz-11''\<rparr>]"]
    reconstructSecret_malformed_share [of "[\<lparr>share_id = 1, data = ''1-5-zz''\<rparr>, \<lparr>share_id = 2, data = ''2 -7 ''\<rparr>]"]
  show ?thesis
    by simp
qed

end
